theory Spec2Isabelle
  imports Complex_Main "HOL-Library.Word" "HOL-Library.Multiset"
begin

section \<open>JavaScript values\<close>

text \<open>
  The client (manatee.js) is JavaScript. Values that reach it from \<open>JSON.parse\<close> are
  dynamically typed, so they are modelled by one datatype. Strings are Isabelle strings:
  JavaScript strings whose code units are below 256. Numbers that come out of a JSON
  document are rationals (every finite double is one); \<open>NaN\<close> cannot come out of a
  document.
\<close>

datatype jsval =
    JUndefined
  | JNull
  | JBool bool
  | JNum rat
  | JStr string
  | JArr "jsval list"
  | JObj "(string \<times> jsval) list"

text \<open>
  What the source can throw: a \<open>TypeError\<close> of the language, a failed \<open>assert\<close>, and
  the exception of \<open>emit('error', ...)\<close> on an emitter that has no listener for
  \<open>error\<close>.
\<close>

datatype js_error = TypeError | AssertionError | UnhandledError

text \<open>The result of \<open>parseInt\<close>: a number that may be \<open>NaN\<close>.\<close>

datatype jsnum = NaN | Finite int

text \<open>\<open>ToBoolean\<close>, as every \<open>if (x)\<close> and \<open>!x\<close> of the source applies it.\<close>

fun truthy :: "jsval \<Rightarrow> bool" where
  "truthy JUndefined = False"
| "truthy JNull = False"
| "truthy (JBool b) = b"
| "truthy (JNum r) = (r \<noteq> 0)"
| "truthy (JStr s) = (s \<noteq> [])"
| "truthy (JArr xs) = True"
| "truthy (JObj kvs) = True"

text \<open>
  The property read \<open>v.k\<close> for the four names the source reads (\<open>primary\<close>,
  \<open>sync\<close>, \<open>async\<close>, \<open>pgUrl\<close>), none of which a prototype defines: an object
  gives its own property or \<open>undefined\<close>, \<open>null\<close> and \<open>undefined\<close> throw a
  \<open>TypeError\<close>, every other value gives \<open>undefined\<close>.
\<close>

fun get_prop :: "jsval \<Rightarrow> string \<Rightarrow> js_error + jsval" where
  "get_prop JUndefined k = Inl TypeError"
| "get_prop JNull k = Inl TypeError"
| "get_prop (JObj kvs) k = Inr (case map_of kvs k of None \<Rightarrow> JUndefined | Some v \<Rightarrow> v)"
| "get_prop v k = Inr JUndefined"

text \<open>
  Strict equality \<open>===\<close>. Primitives are compared by value. Arrays and objects are
  compared by identity; the two sides of every \<open>===\<close> of the source on such values come
  from two different calls of \<open>JSON.parse\<close>, which allocates its result, so the
  comparison is false.
\<close>

fun strict_eq :: "jsval \<Rightarrow> jsval \<Rightarrow> bool" where
  "strict_eq JUndefined JUndefined = True"
| "strict_eq JNull JNull = True"
| "strict_eq (JBool a) (JBool b) = (a = b)"
| "strict_eq (JNum a) (JNum b) = (a = b)"
| "strict_eq (JStr a) (JStr b) = (a = b)"
| "strict_eq a b = False"

text \<open>\<open>===\<close> on numbers that may be \<open>NaN\<close>: \<open>NaN\<close> equals nothing, itself included.\<close>

fun num_eq :: "jsnum \<Rightarrow> jsnum \<Rightarrow> bool" where
  "num_eq (Finite a) (Finite b) = (a = b)"
| "num_eq a b = False"

fun num_sub :: "jsnum \<Rightarrow> jsnum \<Rightarrow> jsnum" where
  "num_sub (Finite a) (Finite b) = Finite (a - b)"
| "num_sub a b = NaN"

section \<open>String operations of the source\<close>

text \<open>\<open>s.split(c)\<close> for a separator of one character: never the empty array.\<close>

fun split_on :: "char \<Rightarrow> string \<Rightarrow> string list" where
  "split_on c [] = [[]]"
| "split_on c (x # xs) =
     (if x = c then [] # split_on c xs
      else (case split_on c xs of
              [] \<Rightarrow> [[x]]
            | y # ys \<Rightarrow> (x # y) # ys))"

text \<open>\<open>s.lastIndexOf(c)\<close>: the index of the last occurrence, or -1.\<close>

definition lastIndexOf :: "string \<Rightarrow> char \<Rightarrow> int" where
  "lastIndexOf s c =
     (if c \<in> set s
      then int (length s) - 1 - int (length (takeWhile (\<lambda>x. x \<noteq> c) (rev s)))
      else - 1)"

text \<open>\<open>s.substring(i)\<close>: the start is clamped to the string.\<close>

definition substring :: "string \<Rightarrow> int \<Rightarrow> string" where
  "substring s i = drop (nat i) s"

text \<open>
  \<open>parseInt(s, 10)\<close>: leading white space is skipped, one sign is read, then the
  longest run of decimal digits; no digit gives \<open>NaN\<close>. The value is the mathematical
  integer; JavaScript rounds it to a double, which is the same number below \<open>2^53\<close>.
  Every statement that reads a number through \<open>parseInt\<close> is made for digits below
  that bound, or at concrete inputs.
\<close>

definition isStrWhiteSpace :: "char \<Rightarrow> bool" where
  "isStrWhiteSpace c = (of_char c \<in> set [9, 10, 11, 12, 13, 32, 160 :: nat])"

definition isDigit :: "char \<Rightarrow> bool" where
  "isDigit c = (48 \<le> (of_char c :: nat) \<and> (of_char c :: nat) \<le> 57)"

definition digitsValue :: "string \<Rightarrow> int" where
  "digitsValue ds = foldl (\<lambda>acc d. 10 * acc + (int (of_char d) - 48)) 0 ds"

definition parseInt :: "string \<Rightarrow> jsnum" where
  "parseInt s =
     (let s1 = dropWhile isStrWhiteSpace s;
          neg = (case s1 of [] \<Rightarrow> False | c # r \<Rightarrow> c = CHR ''-'');
          s2 = (case s1 of [] \<Rightarrow> [] | c # r \<Rightarrow> if c = CHR ''-'' \<or> c = CHR ''+'' then r else s1);
          z = takeWhile isDigit s2
      in if z = [] then NaN
         else Finite (if neg then - digitsValue z else digitsValue z))"

text \<open>
  \<open>xs.sort(compare)\<close>. The comparator's result is read by its sign, and \<open>NaN\<close> counts
  as zero. The sort is the stable one (ECMAScript 2019); it inserts each element before
  the first it does not compare greater than. For a comparator that is not consistent
  (here: when some name has no number after its last dash, so that \<open>compare\<close> gives
  \<open>NaN\<close>) ECMAScript leaves the order to the engine; the order computed here is then
  one possible order, and every statement about the order is made for names that all
  carry a number.
\<close>

fun positive :: "jsnum \<Rightarrow> bool" where
  "positive NaN = False"
| "positive (Finite n) = (0 < n)"

fun sort_insert :: "('a \<Rightarrow> 'a \<Rightarrow> jsnum) \<Rightarrow> 'a \<Rightarrow> 'a list \<Rightarrow> 'a list" where
  "sort_insert cmp x [] = [x]"
| "sort_insert cmp x (y # ys) =
     (if positive (cmp x y) then y # sort_insert cmp x ys else x # y # ys)"

definition array_sort :: "('a \<Rightarrow> 'a \<Rightarrow> jsnum) \<Rightarrow> 'a list \<Rightarrow> 'a list" where
  "array_sort cmp xs = foldr (sort_insert cmp) xs []"

section \<open>Election node names and the two reducers\<close>

text \<open>The sequence number of an election node: \<open>parseInt\<close> of what follows the last dash.\<close>

definition seqOf :: "string \<Rightarrow> jsnum" where
  "seqOf a = parseInt (substring a (lastIndexOf a CHR ''-'' + 1))"

definition compare :: "string \<Rightarrow> string \<Rightarrow> jsnum" where
  "compare a b = num_sub (seqOf a) (seqOf b)"

text \<open>
  \<open>transformPgUrl\<close>: \<open>zkNode.split('-')[0]\<close>, then split on the colon. Both indexed
  reads are in range, \<open>split_on\<close> never returning the empty list.
\<close>

definition transformPgUrl :: "string \<Rightarrow> string" where
  "transformPgUrl zkNode =
     (let encodedString = split_on CHR ''-'' zkNode ! 0;
          data = split_on CHR '':'' encodedString
      in if length data = 1 then ''tcp://'' @ data ! 0
         else ''tcp://'' @ data ! 0 @ '':'' @ data ! 1)"

text \<open>\<open>children.sort(compare)\<close> reorders the array it is given; this is its new content.\<close>

definition sortedChildren :: "string list option \<Rightarrow> string list" where
  "sortedChildren children =
     array_sort compare (case children of None \<Rightarrow> [] | Some cs \<Rightarrow> cs)"

definition childrenToUrls :: "string list option \<Rightarrow> jsval list" where
  "childrenToUrls children = map (\<lambda>val. JStr (transformPgUrl val)) (sortedChildren children)"

text \<open>\<open>urls.push(x.pgUrl)\<close>\<close>

definition push_pgUrl :: "jsval \<Rightarrow> jsval list \<Rightarrow> js_error + jsval list" where
  "push_pgUrl x urls =
     (case get_prop x ''pgUrl'' of Inl e \<Rightarrow> Inl e | Inr u \<Rightarrow> Inr (urls @ [u]))"

fun forEach_push :: "jsval list \<Rightarrow> jsval list \<Rightarrow> js_error + jsval list" where
  "forEach_push [] urls = Inr urls"
| "forEach_push (a # as) urls =
     (case push_pgUrl a urls of Inl e \<Rightarrow> Inl e | Inr urls' \<Rightarrow> forEach_push as urls')"

text \<open>
  \<open>clusterStateToUrls\<close>. \<open>cs.async.forEach\<close> is a function only when \<open>cs.async\<close> is
  an array; on any other truthy value the call throws.
\<close>

definition clusterStateToUrls :: "jsval \<Rightarrow> js_error + jsval list" where
  "clusterStateToUrls cs =
     (case get_prop cs ''primary'' of Inl e \<Rightarrow> Inl e | Inr p \<Rightarrow>
     (case (if truthy p then push_pgUrl p [] else Inr []) of Inl e \<Rightarrow> Inl e | Inr urls1 \<Rightarrow>
     (case get_prop cs ''sync'' of Inl e \<Rightarrow> Inl e | Inr sy \<Rightarrow>
     (case (if truthy sy then push_pgUrl sy urls1 else Inr urls1) of Inl e \<Rightarrow> Inl e | Inr urls2 \<Rightarrow>
     (case get_prop cs ''async'' of Inl e \<Rightarrow> Inl e | Inr a \<Rightarrow>
        if truthy a
        then (case a of JArr as \<Rightarrow> forEach_push as urls2 | _ \<Rightarrow> Inl TypeError)
        else Inr urls2)))))"







text \<open>The decoding the specification describes: the name up to its last dash.\<close>

definition decodeChild_spec :: "string \<Rightarrow> string" where
  "decodeChild_spec name =
     (let prefix = take (nat (lastIndexOf name CHR ''-'')) name;
          data = split_on CHR '':'' prefix
      in if length data = 1 then ''tcp://'' @ data ! 0
         else ''tcp://'' @ data ! 0 @ '':'' @ data ! 1)"

section \<open>The client: state and event handlers\<close>

text \<open>
  What a node watcher hands to the client (\<open>getRes\<close>): each part is \<open>null\<close> or a
  value. The argument of a handler is \<open>node_view option\<close>, the handlers testing
  \<open>!res\<close> first.
\<close>

record node_view =
  data :: "string option"
  version :: "int option"
  children :: "string list option"

text \<open>\<open>!res || !res.data\<close> and \<open>!res || !res.children\<close>: the part, when there is one.\<close>

definition dataOf :: "node_view option \<Rightarrow> string option" where
  "dataOf res = (case res of None \<Rightarrow> None | Some r \<Rightarrow> data r)"

definition childrenOf :: "node_view option \<Rightarrow> string list option" where
  "childrenOf res = (case res of None \<Rightarrow> None | Some r \<Rightarrow> children r)"

text \<open>The events the client emits, and the callbacks it defers with \<open>process.nextTick\<close>.\<close>

datatype event = Ready | Topology "jsval list" | Error string | Close

datatype tick = InitTick | EmitTick event | SetupZkClientTick

text \<open>
  The fields of \<open>Manatee\<close> the handlers use, with: \<open>emitted\<close>, every event emitted so
  far, oldest first (the listeners themselves are outside the model); the latches of the
  \<open>once\<close> wrappers of \<open>_init\<close> (\<open>emitReady\<close> for the client, \<open>setWatchesOnce\<close> and
  \<open>resetZkClientOnce\<close> for each ZooKeeper handle, a handle being the number of its
  creation); \<open>detached\<close>, the handles whose listeners \<open>close\<close> has removed; and the
  queue of \<open>process.nextTick\<close>.
\<close>

record manatee =
  inited :: bool
  closedFlag :: bool
  zk :: "nat option"
  clusterState :: jsval
  actives :: "string list option"
  urls :: "jsval list"
  emitted :: "event list"
  emitReadyCalled :: bool
  setWatchesCalled :: "nat list"
  resetZkClientCalled :: "nat list"
  zkCreated :: nat
  detached :: "nat list"
  nextTickQueue :: "tick list"

text \<open>The constructor: \<open>_init\<close> is deferred to the next tick.\<close>

definition Manatee :: manatee where
  "Manatee = \<lparr> inited = False, closedFlag = False, zk = None, clusterState = JNull,
     actives = None, urls = [], emitted = [], emitReadyCalled = False,
     setWatchesCalled = [], resetZkClientCalled = [], zkCreated = 0, detached = [],
     nextTickQueue = [InitTick] \<rparr>"

definition emit :: "event \<Rightarrow> manatee \<Rightarrow> manatee" where
  "emit e s = s\<lparr> emitted := emitted s @ [e] \<rparr>"

text \<open>An indexed read \<open>xs[i]\<close>: \<open>undefined\<close> out of range.\<close>

definition index :: "jsval list \<Rightarrow> nat \<Rightarrow> jsval" where
  "index xs i = (if i < length xs then xs ! i else JUndefined)"

text \<open>
  The debounce loop of \<open>handleTopologyChange\<close>: \<open>equal\<close> starts as the equality of the
  lengths, and \<open>forEach\<close> over the stored list conjoins \<open>u === urls[i]\<close>.
\<close>

definition debounceEqual :: "jsval list \<Rightarrow> jsval list \<Rightarrow> bool" where
  "debounceEqual stored new =
     foldl (\<lambda>equal (u, i). equal \<and> strict_eq u (index new i))
       (length new = length stored) (zip stored [0..<length stored])"

definition handleTopologyChange :: "jsval list option \<Rightarrow> manatee \<Rightarrow> manatee" where
  "handleTopologyChange urls0 s =
     (let urls1 = (case urls0 of None \<Rightarrow> [] | Some u \<Rightarrow> u)
      in if debounceEqual (urls s) urls1 then s
         else (let s1 = s\<lparr> urls := urls1 \<rparr>
               in if inited s1 then emit (Topology (urls s1)) s1 else s1))"

text \<open>
  \<open>this._handleTopologyChange(this._childrenToUrls(this._actives))\<close>: the sort inside
  \<open>childrenToUrls\<close> is in place, so the stored array is reordered too.
\<close>

definition topologyFromActives :: "manatee \<Rightarrow> manatee" where
  "topologyFromActives s =
     handleTopologyChange (Some (childrenToUrls (actives s)))
       (s\<lparr> actives := map_option (\<lambda>a. sortedChildren (Some a)) (actives s) \<rparr>)"

text \<open>
  \<open>handleClusterState\<close>. \<open>parse\<close> stands for \<open>JSON.parse\<close> after the UTF-8 decoding
  (\<open>None\<close> when it throws). A handler that throws gives \<open>Inl\<close>, with the state it
  leaves behind.
\<close>

definition parseErrorMsg :: string where
  "parseErrorMsg = ''error JSON parsing zookeeper cluster state''"

definition handleClusterState ::
  "(string \<Rightarrow> jsval option) \<Rightarrow> node_view option \<Rightarrow> manatee \<Rightarrow> (js_error \<times> manatee) + manatee" where
  "handleClusterState parse res s =
     (case dataOf res of
        None \<Rightarrow>
          if \<not> inited s then Inr s
          else (let s1 = s\<lparr> clusterState := JNull \<rparr>
                in if actives s1 \<noteq> None then Inr (topologyFromActives s1) else Inr s1)
      | Some d \<Rightarrow>
          (case parse d of
             None \<Rightarrow> Inr (emit (Error parseErrorMsg) s)
           | Some cs \<Rightarrow>
               (let s1 = s\<lparr> clusterState := cs \<rparr>
                in case clusterStateToUrls (clusterState s1) of
                     Inl e \<Rightarrow> Inl (e, s1)
                   | Inr us \<Rightarrow> Inr (handleTopologyChange (Some us) s1))))"

definition handleActive :: "node_view option \<Rightarrow> manatee \<Rightarrow> manatee" where
  "handleActive res s =
     (case childrenOf res of
        None \<Rightarrow> s\<lparr> actives := None \<rparr>
      | Some c \<Rightarrow>
          (let s1 = s\<lparr> actives := Some c \<rparr>
           in if truthy (clusterState s1) then s1 else topologyFromActives s1))"

text \<open>
  \<open>close\<close>. With a ZooKeeper handle it removes the listeners of that handle (the
  listener of \<open>error\<close> it puts in their place only logs) and closes it; then, the
  first time, it sets \<open>closed\<close> and emits \<open>close\<close>.
\<close>

definition close :: "manatee \<Rightarrow> manatee" where
  "close s =
     (let s1 = (case zk s of None \<Rightarrow> s | Some h \<Rightarrow> s\<lparr> detached := h # detached s \<rparr>)
      in if \<not> closedFlag s1 then emit Close (s1\<lparr> closedFlag := True \<rparr>) else s1)"

text \<open>
  Notions for the statements about emissions: two lists are element-wise equal when they
  have one length and \<open>===\<close> holds at every index; the topologies among some
  events; a sequence of lists without two element-wise equal neighbours; what a client
  has emitted since an earlier state; a sequence of calls of \<open>handleTopologyChange\<close>.
\<close>

definition elementwiseEqual :: "jsval list \<Rightarrow> jsval list \<Rightarrow> bool" where
  "elementwiseEqual a b = list_all2 strict_eq a b"

definition orEmpty :: "jsval list option \<Rightarrow> jsval list" where
  "orEmpty u = (case u of None \<Rightarrow> [] | Some us \<Rightarrow> us)"

fun topologiesOf :: "event list \<Rightarrow> jsval list list" where
  "topologiesOf [] = []"
| "topologiesOf (Topology u # es) = u # topologiesOf es"
| "topologiesOf (e # es) = topologiesOf es"

fun noRepeat :: "jsval list list \<Rightarrow> bool" where
  "noRepeat (a # b # r) = (\<not> elementwiseEqual a b \<and> noRepeat (b # r))"
| "noRepeat r = True"

definition emittedSince :: "manatee \<Rightarrow> manatee \<Rightarrow> event list" where
  "emittedSince s s1 = drop (length (emitted s)) (emitted s1)"

definition handleTopologyChanges :: "jsval list option list \<Rightarrow> manatee \<Rightarrow> manatee" where
  "handleTopologyChanges calls s = foldl (\<lambda>s1 u. handleTopologyChange u s1) s calls"

section \<open>The client: session life cycle\<close>

text \<open>\<open>emitReady\<close>, under its \<open>once\<close>.\<close>

definition emitReady :: "manatee \<Rightarrow> manatee" where
  "emitReady s =
     (if emitReadyCalled s then s
      else s\<lparr> emitReadyCalled := True, inited := True,
              nextTickQueue := nextTickQueue s @ [EmitTick Ready, EmitTick (Topology (urls s))] \<rparr>)"

definition setupZkClient :: "manatee \<Rightarrow> manatee" where
  "setupZkClient s = s\<lparr> zk := Some (zkCreated s), zkCreated := Suc (zkCreated s) \<rparr>"

definition resetZkClientOnce :: "nat \<Rightarrow> manatee \<Rightarrow> manatee" where
  "resetZkClientOnce h s =
     (if h \<in> set (resetZkClientCalled s) then s
      else s\<lparr> resetZkClientCalled := h # resetZkClientCalled s,
              nextTickQueue := nextTickQueue s @ [SetupZkClientTick] \<rparr>)"

text \<open>
  \<open>setWatchesOnce\<close> starts the two node watchers; their callbacks arrive later, as
  actions of their own.
\<close>

definition setWatchesOnce :: "nat \<Rightarrow> manatee \<Rightarrow> manatee" where
  "setWatchesOnce h s =
     (if h \<in> set (setWatchesCalled s) then s
      else s\<lparr> setWatchesCalled := h # setWatchesCalled s \<rparr>)"

text \<open>
  What the event loop can run in the client: a listener of a ZooKeeper handle, the
  callback \<open>setWatches\<close> ends with, a handler called by a node watcher, or \<open>close\<close>.
  An event of a handle whose listeners \<open>close\<close> has removed reaches nothing.
\<close>

datatype action =
    OnConnected nat
  | OnExpired nat
  | OnError nat
  | SetWatchesCallback nat bool
  | HandleClusterState "node_view option"
  | HandleActive "node_view option"
  | CloseCall

fun perform :: "(string \<Rightarrow> jsval option) \<Rightarrow> action \<Rightarrow> manatee \<Rightarrow> (js_error \<times> manatee) + manatee" where
  "perform parse (OnConnected h) s =
     Inr (if h \<in> set (detached s) then s else setWatchesOnce h s)"
| "perform parse (OnExpired h) s =
     Inr (if h \<in> set (detached s) then s else resetZkClientOnce h s)"
| "perform parse (OnError h) s =
     Inr (if h \<in> set (detached s) then s else resetZkClientOnce h s)"
| "perform parse (SetWatchesCallback h err) s =
     Inr (if err then resetZkClientOnce h s else emitReady s)"
| "perform parse (HandleClusterState res) s = handleClusterState parse res s"
| "perform parse (HandleActive res) s = Inr (handleActive res s)"
| "perform parse CloseCall s = Inr (close s)"

text \<open>
  One turn of the event loop runs its actions one after the other, then the queue of
  \<open>process.nextTick\<close>. An exception that leaves a handler ends the turn and the run.
\<close>

fun performAll :: "(string \<Rightarrow> jsval option) \<Rightarrow> action list \<Rightarrow> manatee \<Rightarrow> (js_error \<times> manatee) + manatee" where
  "performAll parse [] s = Inr s"
| "performAll parse (a # as) s =
     (case perform parse a s of Inl x \<Rightarrow> Inl x | Inr s1 \<Rightarrow> performAll parse as s1)"

fun runTick :: "tick \<Rightarrow> manatee \<Rightarrow> manatee" where
  "runTick InitTick s = setupZkClient s"
| "runTick (EmitTick e) s = emit e s"
| "runTick SetupZkClientTick s = setupZkClient s"

definition drainTicks :: "manatee \<Rightarrow> manatee" where
  "drainTicks s = foldl (\<lambda>s1 t. runTick t s1) (s\<lparr> nextTickQueue := [] \<rparr>) (nextTickQueue s)"

definition turn :: "(string \<Rightarrow> jsval option) \<Rightarrow> action list \<Rightarrow> manatee \<Rightarrow> (js_error \<times> manatee) + manatee" where
  "turn parse as s =
     (case performAll parse as s of Inl x \<Rightarrow> Inl x | Inr s1 \<Rightarrow> Inr (drainTicks s1))"

fun run :: "(string \<Rightarrow> jsval option) \<Rightarrow> action list list \<Rightarrow> manatee \<Rightarrow> (js_error \<times> manatee) + manatee" where
  "run parse [] s = Inr s"
| "run parse (t # ts) s =
     (case turn parse t s of Inl x \<Rightarrow> Inl x | Inr s1 \<Rightarrow> run parse ts s1)"

definition lastState :: "(js_error \<times> manatee) + manatee \<Rightarrow> manatee" where
  "lastState r = (case r of Inl (e, s) \<Rightarrow> s | Inr s \<Rightarrow> s)"

text \<open>
  The life of a client: the turn of the constructor's caller, in which nothing of the
  client runs but the deferred \<open>_init\<close>, then the turns of the event loop.
\<close>

definition lifetime :: "(string \<Rightarrow> jsval option) \<Rightarrow> action list list \<Rightarrow> (js_error \<times> manatee) + manatee" where
  "lifetime parse turns = run parse ([] # turns) Manatee"

fun isSetWatchesSuccess :: "action \<Rightarrow> bool" where
  "isSetWatchesSuccess (SetWatchesCallback h err) = (\<not> err)"
| "isSetWatchesSuccess a = False"

text \<open>
  The schedule assumed of the ZooKeeper library: the callback that ends \<open>setWatches\<close>
  without error, which calls \<open>emitReady\<close>, is the last thing the client runs in its
  turn (in the source it returns into the library).
\<close>

definition setWatchesCallbackLast :: "action list \<Rightarrow> bool" where
  "setWatchesCallbackLast as = list_all (\<lambda>a. \<not> isSetWatchesSuccess a) (butlast as)"

text \<open>
  Notions for the statement about \<open>ready\<close>: among the events emitted, \<open>ready\<close>
  comes before every \<open>topology\<close>; some turn holds a callback of \<open>setWatches\<close>
  without error; and the invariant of the client between two actions, which ties
  \<open>inited\<close> and the latch of \<open>emitReady\<close> to what has been emitted.
\<close>

fun readyBeforeTopology :: "event list \<Rightarrow> bool" where
  "readyBeforeTopology [] = True"
| "readyBeforeTopology (Ready # es) = True"
| "readyBeforeTopology (Topology u # es) = False"
| "readyBeforeTopology (e # es) = readyBeforeTopology es"

definition setWatchesSucceeded :: "action list list \<Rightarrow> bool" where
  "setWatchesSucceeded turns = list_ex (list_ex isSetWatchesSuccess) turns"

fun isEmitTick :: "tick \<Rightarrow> bool" where
  "isEmitTick (EmitTick e) = True"
| "isEmitTick t = False"

definition readyInvariant :: "manatee \<Rightarrow> bool" where
  "readyInvariant s =
     (emitReadyCalled s = inited s
      \<and> list_all (\<lambda>t. \<not> isEmitTick t) (nextTickQueue s)
      \<and> (if inited s
          then count_list (emitted s) Ready = 1 \<and> readyBeforeTopology (emitted s)
          else Ready \<notin> set (emitted s) \<and> topologiesOf (emitted s) = []))"

text \<open>
  The invariant behind the debounce over a whole life: no two neighbours among the
  topologies emitted are element-wise equal, and once the client is inited the last
  topology emitted is the list stored.
\<close>

definition debounceInvariant :: "manatee \<Rightarrow> bool" where
  "debounceInvariant s =
     (noRepeat (topologiesOf (emitted s))
      \<and> (if inited s
          then topologiesOf (emitted s) \<noteq> [] \<and> last (topologiesOf (emitted s)) = urls s
          else True))"

text \<open>
  For the statements that do not assume that schedule: the events that the queue of
  \<open>process.nextTick\<close> still holds, in the order in which they will be emitted, and
  the invariant that counts \<open>ready\<close> among the events emitted and those still queued.
\<close>

fun pendingEvents :: "tick list \<Rightarrow> event list" where
  "pendingEvents [] = []"
| "pendingEvents (EmitTick e # q) = e # pendingEvents q"
| "pendingEvents (t # q) = pendingEvents q"

definition readyCountInvariant :: "manatee \<Rightarrow> bool" where
  "readyCountInvariant s =
     (emitReadyCalled s = inited s
      \<and> count_list (emitted s) Ready + count_list (pendingEvents (nextTickQueue s)) Ready
          = (if inited s then 1 else 0)
      \<and> (inited s \<or> topologiesOf (emitted s) = [] \<and> topologiesOf (pendingEvents (nextTickQueue s)) = []))"



text \<open>
  Concrete inputs for the examples: the view of a node that does not exist, a parser
  that reads one document, \<open>{"primary": {"pgUrl": "tcp://1.1.1.1:5432"}}\<close>, and the
  view of the state node that holds it.
\<close>

definition absentView :: "node_view option" where
  "absentView = Some \<lparr> data = None, version = None, children = None \<rparr>"

definition oneDocument :: "string \<Rightarrow> jsval option" where
  "oneDocument d =
     (if d = ''doc'' then Some (JObj [(''primary'', JObj [(''pgUrl'', JStr ''tcp://1.1.1.1:5432'')])])
      else None)"

definition docView :: "node_view option" where
  "docView = Some \<lparr> data = Some ''doc'', version = Some 0, children = Some [] \<rparr>"


section \<open>The node watcher\<close>

text \<open>
  \<open>_watchNode\<close> keeps three variables and a \<open>once\<close>-wrapped callback, and everything
  else it does is asynchronous. The model keeps what is outstanding: each request to
  ZooKeeper with the variables its callback has captured (\<open>regWatch\<close> for \<open>getData\<close>;
  for \<open>registerChildrenWatch\<close> the \<open>subcb\<close>, which is absent or the \<open>done\<close> of a
  \<open>getData\<close> and so its \<open>regWatch\<close>), each timer, and each watch armed on the server.
  \<open>setTimeout(f, 5000)\<close> calls \<open>f\<close> with no argument.
\<close>

datatype zk_stat = Stat (stat_version: int)

datatype zk_error = NO_NODE | OTHER_ERROR

datatype pending =
    GetDataReq bool
  | GetChildrenReq "bool option"
  | ExistsReq
  | GetDataTimer
  | ChildrenTimer
  | DataWatch
  | ChildrenWatch

datatype delivery = Cb node_view | Wat node_view

record watcher =
  currStat :: "zk_stat option"
  currChildren :: "string list option"
  currData :: "string option"
  cbCalled :: bool
  outstanding :: "pending list"
  delivered :: "delivery list"

definition getRes :: "watcher \<Rightarrow> node_view" where
  "getRes w = \<lparr> data = currData w,
                version = (case currStat w of None \<Rightarrow> None | Some st \<Rightarrow> Some (stat_version st)),
                children = currChildren w \<rparr>"

definition schedule :: "pending \<Rightarrow> watcher \<Rightarrow> watcher" where
  "schedule p w = w\<lparr> outstanding := outstanding w @ [p] \<rparr>"

text \<open>
  Each function takes the client's \<open>_closed\<close> first. \<open>doneFn\<close> is the \<open>done\<close> of
  the \<open>getData\<close> callback.
\<close>

definition getData :: "bool \<Rightarrow> bool \<Rightarrow> watcher \<Rightarrow> watcher" where
  "getData closed' regWatch w = (if closed' then w else schedule (GetDataReq regWatch) w)"

definition registerChildrenWatch :: "bool \<Rightarrow> bool option \<Rightarrow> watcher \<Rightarrow> watcher" where
  "registerChildrenWatch closed' subcb w =
     (if closed' then w else schedule (GetChildrenReq subcb) w)"

definition registerDataWatch :: "bool \<Rightarrow> watcher \<Rightarrow> watcher" where
  "registerDataWatch closed' w = (if closed' then w else schedule ExistsReq w)"

definition doneFn :: "bool \<Rightarrow> bool \<Rightarrow> watcher \<Rightarrow> watcher" where
  "doneFn closed' regWatch w = (if regWatch then registerDataWatch closed' w else w)"

text \<open>\<open>cb\<close> under its \<open>once\<close>, and \<open>wat\<close>.\<close>

definition callCb :: "watcher \<Rightarrow> watcher" where
  "callCb w = w\<lparr> cbCalled := True, delivered := delivered w @ [Cb (getRes w)] \<rparr>"

definition callWat :: "watcher \<Rightarrow> watcher" where
  "callWat w = w\<lparr> delivered := delivered w @ [Wat (getRes w)] \<rparr>"

text \<open>The callback of \<open>zk.getData\<close>.\<close>

definition onGetData ::
  "bool \<Rightarrow> bool \<Rightarrow> zk_error option \<Rightarrow> string option \<Rightarrow> zk_stat option \<Rightarrow> watcher \<Rightarrow> watcher" where
  "onGetData closed' regWatch err dat st w =
     (let prevStat = currStat w;
          w1 = w\<lparr> currStat := st, currData := dat \<rparr>
      in if err = Some OTHER_ERROR then schedule GetDataTimer w1
         else (let w2 = (if err = Some NO_NODE then w1\<lparr> currChildren := None \<rparr> else w1)
               in if \<not> cbCalled w2
                  then (if currStat w2 \<noteq> None
                        then registerChildrenWatch closed' (Some regWatch) w2
                        else doneFn closed' regWatch (callCb w2))
                  else (if prevStat = None \<and> currStat w2 \<noteq> None
                           \<and> map_option stat_version (currStat w2) = Some 0
                        then registerChildrenWatch closed' (Some regWatch) w2
                        else doneFn closed' regWatch (callWat w2))))"

text \<open>The callback of \<open>zk.getChildren\<close>; a read that succeeds leaves its watch armed.\<close>

definition onGetChildren ::
  "bool \<Rightarrow> bool option \<Rightarrow> zk_error option \<Rightarrow> string list \<Rightarrow> watcher \<Rightarrow> watcher" where
  "onGetChildren closed' subcb err cs w =
     (if err = Some NO_NODE then w
      else if err = Some OTHER_ERROR then schedule ChildrenTimer w
      else (let w1 = schedule ChildrenWatch (w\<lparr> currChildren := Some cs \<rparr>);
                w2 = (if \<not> cbCalled w1 then callCb w1 else callWat w1)
            in case subcb of None \<Rightarrow> w2 | Some regWatch \<Rightarrow> doneFn closed' regWatch w2))"

text \<open>
  The callback of \<open>zk.exists\<close>, which ignores its error; an answer without error leaves
  the data watch armed.
\<close>

definition onExists :: "bool \<Rightarrow> zk_error option \<Rightarrow> zk_stat option \<Rightarrow> watcher \<Rightarrow> watcher" where
  "onExists closed' err st w =
     (let w1 = (if err = Some OTHER_ERROR then w else schedule DataWatch w)
      in case (st, currStat w1) of
           (Some a, Some b) \<Rightarrow>
             if stat_version b \<noteq> stat_version a then getData closed' False w1 else w1
         | _ \<Rightarrow> w1)"

definition dataWatchFired :: "bool \<Rightarrow> watcher \<Rightarrow> watcher" where
  "dataWatchFired closed' w = (if closed' then w else getData closed' True w)"

definition childrenWatchFired :: "bool \<Rightarrow> watcher \<Rightarrow> watcher" where
  "childrenWatchFired closed' w = (if closed' then w else registerChildrenWatch closed' None w)"

text \<open>
  What ZooKeeper and the timers deliver. An answer names the request it answers; one
  that answers nothing outstanding is not delivered.
\<close>

datatype arrival =
    GetDataAnswer bool "zk_error option" "string option" "zk_stat option"
  | GetChildrenAnswer "bool option" "zk_error option" "string list"
  | ExistsAnswer "zk_error option" "zk_stat option"
  | GetDataTimerFires
  | ChildrenTimerFires
  | DataWatchFires
  | ChildrenWatchFires

fun awaited :: "arrival \<Rightarrow> pending" where
  "awaited (GetDataAnswer regWatch err dat st) = GetDataReq regWatch"
| "awaited (GetChildrenAnswer subcb err cs) = GetChildrenReq subcb"
| "awaited (ExistsAnswer err st) = ExistsReq"
| "awaited GetDataTimerFires = GetDataTimer"
| "awaited ChildrenTimerFires = ChildrenTimer"
| "awaited DataWatchFires = DataWatch"
| "awaited ChildrenWatchFires = ChildrenWatch"

fun react :: "bool \<Rightarrow> arrival \<Rightarrow> watcher \<Rightarrow> watcher" where
  "react closed' (GetDataAnswer regWatch err dat st) w = onGetData closed' regWatch err dat st w"
| "react closed' (GetChildrenAnswer subcb err cs) w = onGetChildren closed' subcb err cs w"
| "react closed' (ExistsAnswer err st) w = onExists closed' err st w"
| "react closed' GetDataTimerFires w = getData closed' False w"
| "react closed' ChildrenTimerFires w = registerChildrenWatch closed' None w"
| "react closed' DataWatchFires w = dataWatchFired closed' w"
| "react closed' ChildrenWatchFires w = childrenWatchFired closed' w"

definition arrive :: "bool \<Rightarrow> arrival \<Rightarrow> watcher \<Rightarrow> watcher" where
  "arrive closed' a w =
     (if awaited a \<in> set (outstanding w)
      then react closed' a (w\<lparr> outstanding := remove1 (awaited a) (outstanding w) \<rparr>)
      else w)"

definition arriveAll :: "bool \<Rightarrow> arrival list \<Rightarrow> watcher \<Rightarrow> watcher" where
  "arriveAll closed' as w = foldl (\<lambda>w1 a. arrive closed' a w1) w as"

text \<open>\<open>_watchNode\<close>: fresh variables, then \<open>getData(true)\<close>.\<close>

definition watchNode :: "bool \<Rightarrow> watcher" where
  "watchNode closed' =
     getData closed' True
       \<lparr> currStat = None, currChildren = None, currData = None, cbCalled = False,
         outstanding = [], delivered = [] \<rparr>"

text \<open>Whether a data watch is armed, or a step is outstanding that leads to arming one.\<close>

definition dataWatchAhead :: "watcher \<Rightarrow> bool" where
  "dataWatchAhead w =
     (\<exists>p \<in> set (outstanding w).
        p = DataWatch \<or> p = ExistsReq \<or> p = GetDataReq True \<or> p = GetChildrenReq (Some True))"

section \<open>The primary resolver\<close>

text \<open>
  \<open>buf.toString('base64')\<close>: three bytes give four characters; a last group of one
  or two bytes is padded with \<open>=\<close>.
\<close>

definition base64Alphabet :: string where
  "base64Alphabet = ''ABCDEFGHIJKLMNOPQRSTUVWXYZabcdefghijklmnopqrstuvwxyz0123456789+/''"

definition base64Char :: "nat \<Rightarrow> char" where
  "base64Char n = base64Alphabet ! n"

fun toBase64 :: "8 word list \<Rightarrow> string" where
  "toBase64 [] = []"
| "toBase64 [a] =
     [base64Char (unat a div 4), base64Char ((unat a mod 4) * 16), CHR ''='', CHR ''='']"
| "toBase64 [a, b] =
     [base64Char (unat a div 4), base64Char ((unat a mod 4) * 16 + unat b div 16),
      base64Char ((unat b mod 16) * 4), CHR ''='']"
| "toBase64 (a # b # c # rest) =
     [base64Char (unat a div 4), base64Char ((unat a mod 4) * 16 + unat b div 16),
      base64Char ((unat b mod 16) * 4 + unat c div 64), base64Char (unat c mod 64)]
     @ toBase64 rest"

text \<open>\<open>crypto.randomBytes(n)\<close>: the first \<open>n\<close> bytes of a source of entropy.\<close>

definition randomBytes :: "nat \<Rightarrow> (nat \<Rightarrow> 8 word) \<Rightarrow> 8 word list" where
  "randomBytes n entropy = map entropy [0..<n]"

text \<open>
  The candidate \<open>np\<close> the topology listener builds, and the record it becomes when
  \<open>diffPrimaryAndEmit\<close> gives it a key. The port is the result of \<open>parseInt\<close>.
\<close>

record candidate =
  name :: string
  address :: string
  port :: jsnum

record primary_record = candidate +
  key :: string

datatype fsm_state = Stopped | Starting | Running | Failed | Stopping

datatype resolver_event = Added string primary_record | Removed string

text \<open>
  The resolver. \<open>mpr_manatee\<close> says whether it holds a client; \<open>mpr_emitted\<close> is what it
  has emitted so far, oldest first.
\<close>

record resolver =
  mpr_state :: fsm_state
  mpr_manatee :: bool
  mpr_previous :: "primary_record option"
  mpr_primary :: "primary_record option"
  mpr_lastError :: "string option"
  mpr_emitted :: "resolver_event list"

definition ManateePrimaryResolver :: resolver where
  "ManateePrimaryResolver = \<lparr> mpr_state = Stopped, mpr_manatee = False, mpr_previous = None,
     mpr_primary = None, mpr_lastError = None, mpr_emitted = [] \<rparr>"

definition emitR :: "resolver_event \<Rightarrow> resolver \<Rightarrow> resolver" where
  "emitR e r = r\<lparr> mpr_emitted := mpr_emitted r @ [e] \<rparr>"

text \<open>The test that opens \<open>diffPrimaryAndEmit\<close>: three \<open>===\<close> on a primary that exists.\<close>

definition samePrimary :: "primary_record option \<Rightarrow> candidate \<Rightarrow> bool" where
  "samePrimary op np =
     (case op of
        None \<Rightarrow> False
      | Some p \<Rightarrow> name p = name np \<and> address p = address np \<and> num_eq (port p) (port np))"

definition withKey :: "candidate \<Rightarrow> string \<Rightarrow> primary_record" where
  "withKey np k = \<lparr> name = name np, address = address np, port = port np, key = k \<rparr>"

definition diffPrimaryAndEmit :: "(nat \<Rightarrow> 8 word) \<Rightarrow> candidate \<Rightarrow> resolver \<Rightarrow> resolver" where
  "diffPrimaryAndEmit entropy np r =
     (let op = mpr_primary r
      in if samePrimary op np then r
         else (let np1 = withKey np (toBase64 (randomBytes 9 entropy));
                   r1 = r\<lparr> mpr_previous := op, mpr_primary := Some np1 \<rparr>;
                   r2 = emitR (Added (key np1) np1) r1
               in case op of None \<Rightarrow> r2 | Some p \<Rightarrow> emitR (Removed (key p)) r2))"

text \<open>
  The listener of \<open>topology\<close> in the running state. \<open>url.parse\<close> and the two tests of
  \<open>net\<close> are library functions, taken as parameters: \<open>parseUrl\<close> gives the three parts
  the listener reads, \<open>isIP\<close> says whether a host name is an IPv4 or IPv6 literal.
  \<open>url.parse\<close> throws on what is not a string, \<open>urls[0]\<close> of the empty list included.
\<close>

record url =
  protocol :: "string option"
  hostname :: "string option"
  url_port :: "string option"

definition onTopology ::
  "(string \<Rightarrow> url) \<Rightarrow> (string \<Rightarrow> bool) \<Rightarrow> jsval list \<Rightarrow> (nat \<Rightarrow> 8 word) \<Rightarrow> resolver
     \<Rightarrow> (js_error \<times> resolver) + resolver" where
  "onTopology parseUrl isIP us entropy r =
     (case index us 0 of
        JStr u \<Rightarrow>
          (let primary = parseUrl u
           in if protocol primary \<noteq> Some ''tcp:'' then Inl (AssertionError, r)
              else (case hostname primary of
                      None \<Rightarrow> Inl (AssertionError, r)
                    | Some h \<Rightarrow>
                        if \<not> isIP h then Inl (AssertionError, r)
                        else Inr (diffPrimaryAndEmit entropy
                               \<lparr> name = ''primary'', address = h,
                                 port = (case url_port primary of
                                           None \<Rightarrow> NaN | Some p \<Rightarrow> parseInt p) \<rparr> r)))
      | v \<Rightarrow> Inl (TypeError, r))"

text \<open>The state functions: what entering a state does.\<close>

fun enter :: "fsm_state \<Rightarrow> resolver \<Rightarrow> resolver" where
  "enter Stopped r = r"
| "enter Starting r = (if \<not> mpr_manatee r then r\<lparr> mpr_manatee := True \<rparr> else r)"
| "enter Running r = r"
| "enter Stopping r = r\<lparr> mpr_manatee := False \<rparr>"
| "enter Failed r = r\<lparr> mpr_previous := mpr_primary r, mpr_primary := None \<rparr>"

definition gotoState :: "fsm_state \<Rightarrow> resolver \<Rightarrow> resolver" where
  "gotoState st r = enter st (r\<lparr> mpr_state := st \<rparr>)"

text \<open>
  What reaches the resolver: \<open>startAsserted\<close> and \<open>stopAsserted\<close> of its own, the
  events of its client, and the timer of the failed state. A state listens only to what
  its state function registers; everything else is dropped, but an \<open>error\<close> of the
  client: in a state that does not listen to it the client has no listener for
  \<open>error\<close>, and its \<open>emit('error', ...)\<close> throws.
\<close>

datatype resolver_input =
    StartAsserted
  | StopAsserted
  | ManateeReady
  | ManateeError string
  | ManateeTopology "jsval list" "nat \<Rightarrow> 8 word"
  | ManateeClose
  | FailedTimeout

fun handle ::
  "(string \<Rightarrow> url) \<Rightarrow> (string \<Rightarrow> bool) \<Rightarrow> fsm_state \<Rightarrow> resolver_input \<Rightarrow> resolver
     \<Rightarrow> (js_error \<times> resolver) + resolver" where
  "handle parseUrl isIP Stopped StartAsserted r = Inr (gotoState Starting r)"
| "handle parseUrl isIP Starting ManateeReady r = Inr (gotoState Running r)"
| "handle parseUrl isIP Starting (ManateeError e) r =
     Inr (gotoState Failed (r\<lparr> mpr_lastError := Some e \<rparr>))"
| "handle parseUrl isIP Running (ManateeTopology us entropy) r =
     onTopology parseUrl isIP us entropy r"
| "handle parseUrl isIP Running (ManateeError e) r =
     Inr (gotoState Failed (r\<lparr> mpr_lastError := Some e \<rparr>))"
| "handle parseUrl isIP Running StopAsserted r = Inr (gotoState Stopping r)"
| "handle parseUrl isIP Stopping ManateeClose r = Inr (gotoState Stopped r)"
| "handle parseUrl isIP Failed FailedTimeout r = Inr (gotoState Starting r)"
| "handle parseUrl isIP Failed StopAsserted r = Inr (gotoState Stopped r)"
| "handle parseUrl isIP Stopped (ManateeError e) r = Inl (UnhandledError, r)"
| "handle parseUrl isIP Stopping (ManateeError e) r = Inl (UnhandledError, r)"
| "handle parseUrl isIP Failed (ManateeError e) r = Inl (UnhandledError, r)"
| "handle parseUrl isIP st i r = Inr r"

definition receive ::
  "(string \<Rightarrow> url) \<Rightarrow> (string \<Rightarrow> bool) \<Rightarrow> resolver_input \<Rightarrow> resolver
     \<Rightarrow> (js_error \<times> resolver) + resolver" where
  "receive parseUrl isIP i r = handle parseUrl isIP (mpr_state r) i r"

fun receiveAll ::
  "(string \<Rightarrow> url) \<Rightarrow> (string \<Rightarrow> bool) \<Rightarrow> resolver_input list \<Rightarrow> resolver
     \<Rightarrow> (js_error \<times> resolver) + resolver" where
  "receiveAll parseUrl isIP [] r = Inr r"
| "receiveAll parseUrl isIP (i # is) r =
     (case receive parseUrl isIP i r of
        Inl x \<Rightarrow> Inl x
      | Inr r1 \<Rightarrow> receiveAll parseUrl isIP is r1)"

definition lastResolver :: "(js_error \<times> resolver) + resolver \<Rightarrow> resolver" where
  "lastResolver x = (case x of Inl (e, r) \<Rightarrow> r | Inr r \<Rightarrow> r)"

definition count :: "resolver \<Rightarrow> nat" where
  "count r = (if mpr_primary r = None then 0 else 1)"

definition list :: "resolver \<Rightarrow> (string \<rightharpoonup> primary_record)" where
  "list r = (case mpr_primary r of None \<Rightarrow> Map.empty | Some p \<Rightarrow> [key p \<mapsto> p])"

text \<open>
  The emissions of a resolver are well ordered when every \<open>removed\<close> stands right
  after an \<open>added\<close>.
\<close>

fun removedAfter :: "bool \<Rightarrow> resolver_event list \<Rightarrow> bool" where
  "removedAfter afterAdded [] = True"
| "removedAfter afterAdded (Added k p # es) = removedAfter True es"
| "removedAfter afterAdded (Removed k # es) = (afterAdded \<and> removedAfter False es)"

definition removedAfterAdded :: "resolver_event list \<Rightarrow> bool" where
  "removedAfterAdded es = removedAfter False es"

text \<open>A \<open>url.parse\<close> for the examples: it knows one URL.\<close>

definition oneUrl :: "string \<Rightarrow> url" where
  "oneUrl u =
     (if u = ''tcp://1.1.1.1:5432''
      then \<lparr> protocol = Some ''tcp:'', hostname = Some ''1.1.1.1'', url_port = Some ''5432'' \<rparr>
      else \<lparr> protocol = None, hostname = None, url_port = None \<rparr>)"

text \<open>
  The equality the specification describes between the primary and a candidate: the same
  name, the same address and the same port.
\<close>

definition sameFields_spec :: "primary_record \<Rightarrow> candidate \<Rightarrow> bool" where
  "sameFields_spec p np = (name p = name np \<and> address p = address np \<and> port p = port np)"

text \<open>
  A \<open>url.parse\<close> for an election written without ports (\<open>transformPgUrl\<close> then
  gives \<open>tcp://\<close> and the host): it knows one URL, which has no port.
\<close>

definition portlessUrl :: "string \<Rightarrow> url" where
  "portlessUrl u =
     (if u = ''tcp://10.77.77.9''
      then \<lparr> protocol = Some ''tcp:'', hostname = Some ''10.77.77.9'', url_port = None \<rparr>
      else \<lparr> protocol = None, hostname = None, url_port = None \<rparr>)"

section \<open>Facts about the string operations and the reducers\<close>

lemma split_on_nonempty: "split_on c s \<noteq> []"
  by (induction s) (auto split: list.splits)














lemmas url_defs = childrenToUrls_def sortedChildren_def array_sort_def compare_def seqOf_def
  lastIndexOf_def substring_def parseInt_def isStrWhiteSpace_def isDigit_def digitsValue_def
  transformPgUrl_def clusterStateToUrls_def push_pgUrl_def

text \<open>
  C2. \<open>transformPgUrl\<close> decodes the part of the name before its first dash, not
  before its last: for a host name with a dash in it the result is cut short, where the
  decoding of the specification keeps the host whole. The two agree on every name whose
  host has no dash.
\<close>

theorem transformPgUrl_first_dash:
  "transformPgUrl ''my-host:5432:12345-0000000001'' = ''tcp://my''
   \<and> decodeChild_spec ''my-host:5432:12345-0000000001'' = ''tcp://my-host:5432''"
  by (simp add: transformPgUrl_def decodeChild_spec_def lastIndexOf_def)


section \<open>Facts about the handlers of the client\<close>

lemma strict_eq_eq: "strict_eq a b \<Longrightarrow> a = b"
  by (cases a; cases b) auto

lemma foldl_conj:
  "foldl (\<lambda>equal (u, i). equal \<and> P u i) b xs = (b \<and> (\<forall>(u, i)\<in>set xs. P u i))"
  by (induction xs arbitrary: b) auto

lemma debounceEqual_iff:
  "debounceEqual stored new =
     (length new = length stored \<and> (\<forall>i<length stored. strict_eq (stored ! i) (new ! i)))"
proof -
  have "(\<forall>(u, i)\<in>set (zip stored [0..<length stored]). strict_eq u (index new i))
        = (\<forall>i<length stored. strict_eq (stored ! i) (index new i))"
  proof
    assume a: "\<forall>(u, i)\<in>set (zip stored [0..<length stored]). strict_eq u (index new i)"
    show "\<forall>i<length stored. strict_eq (stored ! i) (index new i)"
    proof (intro allI impI)
      fix i assume "i < length stored"
      then have "(stored ! i, i) \<in> set (zip stored [0..<length stored])"
        by (force simp: set_zip)
      with a show "strict_eq (stored ! i) (index new i)" by auto
    qed
  next
    assume "\<forall>i<length stored. strict_eq (stored ! i) (index new i)"
    then show "\<forall>(u, i)\<in>set (zip stored [0..<length stored]). strict_eq u (index new i)"
      by (auto simp: set_zip)
  qed
  then show ?thesis
    unfolding debounceEqual_def foldl_conj
    by (auto simp: index_def)
qed

lemma debounceEqual_same: "debounceEqual stored new \<Longrightarrow> stored = new"
  by (auto simp: debounceEqual_iff intro!: nth_equalityI dest: strict_eq_eq)


lemma debounceEqual_elementwise: "debounceEqual stored new = elementwiseEqual stored new"
  by (auto simp: debounceEqual_iff elementwiseEqual_def list_all2_conv_all_nth)

lemma handleTopologyChange_cases:
  "handleTopologyChange u s =
     (if elementwiseEqual (urls s) (orEmpty u) then s
      else if inited s then s\<lparr> urls := orEmpty u, emitted := emitted s @ [Topology (orEmpty u)] \<rparr>
      else s\<lparr> urls := orEmpty u \<rparr>)"
  by (simp add: handleTopologyChange_def debounceEqual_elementwise orEmpty_def Let_def emit_def)

lemma handleTopologyChanges_not_inited:
  "\<not> inited s \<Longrightarrow> emitted (handleTopologyChanges calls s) = emitted s"
  unfolding handleTopologyChanges_def
  by (induction calls arbitrary: s) (auto simp: handleTopologyChange_cases)

lemma handleTopologyChanges_extends:
  "\<exists>es. emitted (handleTopologyChanges calls s) = emitted s @ es"
  unfolding handleTopologyChanges_def
proof (induction calls arbitrary: s)
  case Nil
  then show ?case by simp
next
  case (Cons u calls)
  obtain es where "emitted (foldl (\<lambda>s1 u. handleTopologyChange u s1) (handleTopologyChange u s) calls)
     = emitted (handleTopologyChange u s) @ es"
    using Cons.IH by blast
  then show ?case by (auto simp: handleTopologyChange_cases)
qed

lemma handleTopologyChanges_noRepeat:
  "noRepeat (urls s # topologiesOf (emittedSince s (handleTopologyChanges calls s)))"
proof (induction calls arbitrary: s)
  case Nil
  then show ?case by (simp add: handleTopologyChanges_def emittedSince_def)
next
  case (Cons u calls)
  let ?s1 = "handleTopologyChange u s"
  have step: "handleTopologyChanges (u # calls) s = handleTopologyChanges calls ?s1"
    by (simp add: handleTopologyChanges_def)
  obtain es where es: "emitted (handleTopologyChanges calls ?s1) = emitted ?s1 @ es"
    using handleTopologyChanges_extends by blast
  have ih: "noRepeat (urls ?s1 # topologiesOf es)"
    using Cons.IH[of ?s1] es by (simp add: emittedSince_def)
  show ?case
  proof (cases "elementwiseEqual (urls s) (orEmpty u)")
    case True
    then have "?s1 = s" by (simp add: handleTopologyChange_cases)
    then show ?thesis using ih es step by (simp add: emittedSince_def)
  next
    case False
    show ?thesis
    proof (cases "inited s")
      case True
      with False have "emitted ?s1 = emitted s @ [Topology (orEmpty u)]" "urls ?s1 = orEmpty u"
        by (simp_all add: handleTopologyChange_cases)
      then show ?thesis using ih es step False by (simp add: emittedSince_def)
    next
      case False
      then have "emitted (handleTopologyChanges (u # calls) s) = emitted s"
        by (rule handleTopologyChanges_not_inited)
      then show ?thesis by (simp add: emittedSince_def)
    qed
  qed
qed

lemma emittedSince_self [simp]: "emittedSince s s = []"
  by (simp add: emittedSince_def)

lemma elementwiseEqual_same: "elementwiseEqual a b \<Longrightarrow> a = b"
  using debounceEqual_same debounceEqual_elementwise by blast

lemma topologyFromActives_cases:
  "topologyFromActives s =
    (let us = childrenToUrls (actives s);
         s1 = s\<lparr> actives := map_option (\<lambda>a. sortedChildren (Some a)) (actives s) \<rparr>
     in if elementwiseEqual (urls s) us then s1
        else if inited s then s1\<lparr> urls := us, emitted := emitted s @ [Topology us] \<rparr>
        else s1\<lparr> urls := us \<rparr>)"
  by (simp add: topologyFromActives_def handleTopologyChange_cases orEmpty_def Let_def)

lemmas client_defs = lifetime_def turn_def drainTicks_def Manatee_def setWatchesOnce_def
  setupZkClient_def emitReady_def resetZkClientOnce_def close_def emit_def lastState_def
  handleClusterState_def handleActive_def topologyFromActives_def handleTopologyChange_def
  debounceEqual_def index_def dataOf_def childrenOf_def Let_def emittedSince_def

lemmas example_defs = absentView_def oneDocument_def docView_def

text \<open>
  C3 (as amended). In an inited client, \<open>handleClusterState\<close> on a view without data
  sets \<open>clusterState\<close> to \<open>null\<close>. With actives, the topology is recomputed from them
  and goes through the debounce: the stored list becomes the list derived from the
  actives, and one \<open>topology\<close> with that list is emitted when it differs from the list
  stored before, none when it is element-wise equal to it. Without actives nothing else
  changes: nothing is emitted and the stored list stays.
\<close>

theorem state_node_deleted:
  assumes "inited s" and "dataOf res = None"
  shows "\<exists>s1. handleClusterState parse res s = Inr s1
            \<and> clusterState s1 = JNull
            \<and> (case actives s of
                  None \<Rightarrow> s1 = s\<lparr> clusterState := JNull \<rparr>
                | Some a \<Rightarrow>
                    urls s1 = childrenToUrls (Some a)
                    \<and> emittedSince s s1 =
                        (if elementwiseEqual (urls s) (childrenToUrls (Some a)) then []
                         else [Topology (childrenToUrls (Some a))]))"
proof (cases "actives s")
  case None
  with assms show ?thesis by (simp add: handleClusterState_def)
next
  case (Some a)
  let ?s0 = "s\<lparr> clusterState := JNull \<rparr>"
  have run: "handleClusterState parse res s = Inr (topologyFromActives ?s0)"
    using assms Some by (simp add: handleClusterState_def)
  have "urls (topologyFromActives ?s0) = childrenToUrls (Some a)"
    using Some by (auto simp: topologyFromActives_cases Let_def dest: elementwiseEqual_same)
  moreover have "emittedSince s (topologyFromActives ?s0) =
      (if elementwiseEqual (urls s) (childrenToUrls (Some a)) then []
       else [Topology (childrenToUrls (Some a))])"
    using Some assms(1) by (simp add: topologyFromActives_cases Let_def emittedSince_def)
  moreover have "clusterState (topologyFromActives ?s0) = JNull"
    by (simp add: topologyFromActives_cases Let_def)
  ultimately show ?thesis using run Some by simp
qed

theorem state_node_deleted_witness:
  "\<exists>s1. handleClusterState oneDocument absentView
     (Manatee\<lparr> inited := True, clusterState := JObj [], urls := [JStr ''tcp://1.1.1.1:5432''],
               actives := Some [''3.3.3.3:5432:1-0000000003'', ''2.2.2.2:5432:1-0000000002''],
               emitted := [Ready, Topology [JStr ''tcp://1.1.1.1:5432'']] \<rparr>) = Inr s1
   \<and> clusterState s1 = JNull
   \<and> urls s1 = [JStr ''tcp://2.2.2.2:5432'', JStr ''tcp://3.3.3.3:5432'']
   \<and> emitted s1 = [Ready, Topology [JStr ''tcp://1.1.1.1:5432''],
                    Topology [JStr ''tcp://2.2.2.2:5432'', JStr ''tcp://3.3.3.3:5432'']]"
proof -
  let ?s = "Manatee\<lparr> inited := True, clusterState := JObj [], urls := [JStr ''tcp://1.1.1.1:5432''],
               actives := Some [''3.3.3.3:5432:1-0000000003'', ''2.2.2.2:5432:1-0000000002''],
               emitted := [Ready, Topology [JStr ''tcp://1.1.1.1:5432'']] \<rparr>"
  have h1: "inited ?s" by simp
  have h2: "dataOf absentView = None" by (simp add: dataOf_def absentView_def)
  have u: "childrenToUrls (Some [''3.3.3.3:5432:1-0000000003'', ''2.2.2.2:5432:1-0000000002''])
      = [JStr ''tcp://2.2.2.2:5432'', JStr ''tcp://3.3.3.3:5432'']"
    by (simp add: url_defs)
  from state_node_deleted[OF h1 h2, of oneDocument]
  obtain s1 where s1: "handleClusterState oneDocument absentView ?s = Inr s1"
     "clusterState s1 = JNull"
     "urls s1 = [JStr ''tcp://2.2.2.2:5432'', JStr ''tcp://3.3.3.3:5432'']"
     "emittedSince ?s s1 = [Topology [JStr ''tcp://2.2.2.2:5432'', JStr ''tcp://3.3.3.3:5432'']]"
    by (auto simp: u elementwiseEqual_def)
  have "\<exists>es. emitted s1 = emitted ?s @ es"
    using s1(1) by (auto simp: handleClusterState_def h2 Let_def topologyFromActives_cases u)
  then have "emitted s1 = emitted ?s @ emittedSince ?s s1"
    by (auto simp: emittedSince_def)
  then show ?thesis using s1 by simp
qed

text \<open>
  The statement that one topology is always emitted fails in two lives of a client. In
  the first the election
  node does not exist, so the actives are \<open>null\<close>: deleting the state node emits
  nothing and leaves the list of the deleted state stored. In the second the only
  active decodes to the primary of the state: deleting the state node emits nothing,
  the list derived from the actives being the one stored.
\<close>

theorem state_node_deleted_counterexample:
  "inited (lastState (lifetime oneDocument
       [[OnConnected 0], [HandleClusterState docView],
        [HandleActive absentView, SetWatchesCallback 0 False]]))
   \<and> emitted (lastState (lifetime oneDocument
       [[OnConnected 0], [HandleClusterState docView],
        [HandleActive absentView, SetWatchesCallback 0 False]]))
     = [Ready, Topology [JStr ''tcp://1.1.1.1:5432'']]
   \<and> emitted (lastState (lifetime oneDocument
       [[OnConnected 0], [HandleClusterState docView],
        [HandleActive absentView, SetWatchesCallback 0 False],
        [HandleClusterState absentView]]))
     = [Ready, Topology [JStr ''tcp://1.1.1.1:5432'']]
   \<and> urls (lastState (lifetime oneDocument
       [[OnConnected 0], [HandleClusterState docView],
        [HandleActive absentView, SetWatchesCallback 0 False],
        [HandleClusterState absentView]]))
     = [JStr ''tcp://1.1.1.1:5432'']
   \<and> emitted (lastState (lifetime oneDocument
       [[OnConnected 0], [HandleClusterState docView],
        [HandleActive (Some \<lparr> data = None, version = Some 0,
                               children = Some [''1.1.1.1:5432:12345-0000000001''] \<rparr>),
         SetWatchesCallback 0 False],
        [HandleClusterState absentView]]))
     = [Ready, Topology [JStr ''tcp://1.1.1.1:5432'']]"
  by (simp add: client_defs example_defs url_defs)

text \<open>
  C6. While the cluster state is set (truthy, as every document that is an object is),
  \<open>handleActive\<close> stores the children it is given and does nothing else: the stored
  list and the emissions stay as they were. The same holds, whatever the cluster state,
  when the view has no children: the actives become \<open>null\<close>.
\<close>

theorem state_wins_over_actives:
  assumes "truthy (clusterState s) \<or> childrenOf res = None"
  shows "handleActive res s = s\<lparr> actives := childrenOf res \<rparr>
       \<and> urls (handleActive res s) = urls s
       \<and> emitted (handleActive res s) = emitted s"
  using assms by (auto simp: handleActive_def Let_def split: option.splits)

theorem state_wins_over_actives_witness:
  "handleActive (Some \<lparr> data = None, version = Some 0, children = Some [''9.9.9.9:5432:1-0000000007''] \<rparr>)
     (Manatee\<lparr> inited := True, clusterState := JObj [], urls := [JStr ''tcp://1.1.1.1:5432''] \<rparr>)
   = Manatee\<lparr> inited := True, clusterState := JObj [], urls := [JStr ''tcp://1.1.1.1:5432''],
              actives := Some [''9.9.9.9:5432:1-0000000007''] \<rparr>"
proof -
  let ?s = "Manatee\<lparr> inited := True, clusterState := JObj [], urls := [JStr ''tcp://1.1.1.1:5432''] \<rparr>"
  have h: "truthy (clusterState ?s) \<or> childrenOf (Some \<lparr> data = None, version = Some 0, children = Some [''9.9.9.9:5432:1-0000000007''] \<rparr>) = None"
    by simp
  show ?thesis using state_wins_over_actives[OF h] by (simp add: childrenOf_def Manatee_def)
qed

text \<open>
  C7. On data that does not parse, \<open>handleClusterState\<close> emits \<open>error\<close> and changes
  nothing else. On data that parses, it stores the document and hands the result of
  \<open>clusterStateToUrls\<close> to \<open>handleTopologyChange\<close> (an exception of
  \<open>clusterStateToUrls\<close> leaves the document stored). It emits \<open>error\<close> exactly when
  there is data and the data does not parse.
\<close>

theorem cluster_state_parse:
  "(dataOf res = Some d \<and> parse d = None \<longrightarrow>
      handleClusterState parse res s = Inr (s\<lparr> emitted := emitted s @ [Error parseErrorMsg] \<rparr>))
   \<and> (dataOf res = Some d \<and> parse d = Some cs \<longrightarrow>
      clusterState (lastState (handleClusterState parse res s)) = cs
      \<and> handleClusterState parse res s =
          (case clusterStateToUrls cs of
             Inl e \<Rightarrow> Inl (e, s\<lparr> clusterState := cs \<rparr>)
           | Inr us \<Rightarrow> Inr (handleTopologyChange (Some us) (s\<lparr> clusterState := cs \<rparr>))))
   \<and> ((\<exists>m. Error m \<in> set (emittedSince s (lastState (handleClusterState parse res s))))
        \<longleftrightarrow> (\<exists>d. dataOf res = Some d \<and> parse d = None))"
proof (intro conjI impI)
  assume "dataOf res = Some d \<and> parse d = None"
  then show "handleClusterState parse res s = Inr (s\<lparr> emitted := emitted s @ [Error parseErrorMsg] \<rparr>)"
    by (simp add: handleClusterState_def emit_def)
next
  assume a: "dataOf res = Some d \<and> parse d = Some cs"
  then show "handleClusterState parse res s =
          (case clusterStateToUrls cs of
             Inl e \<Rightarrow> Inl (e, s\<lparr> clusterState := cs \<rparr>)
           | Inr us \<Rightarrow> Inr (handleTopologyChange (Some us) (s\<lparr> clusterState := cs \<rparr>)))"
    by (simp add: handleClusterState_def Let_def)
  then show "clusterState (lastState (handleClusterState parse res s)) = cs"
    by (auto simp: lastState_def handleTopologyChange_cases split: sum.splits)
next
  show "(\<exists>m. Error m \<in> set (emittedSince s (lastState (handleClusterState parse res s))))
        \<longleftrightarrow> (\<exists>d. dataOf res = Some d \<and> parse d = None)"
  proof (cases "dataOf res")
    case None
    then show ?thesis
      by (auto simp: handleClusterState_def lastState_def Let_def topologyFromActives_cases emittedSince_def)
  next
    case (Some d)
    show ?thesis
    proof (cases "parse d")
      case None
      with Some show ?thesis
        by (auto simp: handleClusterState_def lastState_def emit_def emittedSince_def)
    next
      case (Some cs)
      with \<open>dataOf res = Some d\<close> show ?thesis
        by (auto simp: handleClusterState_def lastState_def Let_def handleTopologyChange_cases
              emittedSince_def split: sum.splits)
    qed
  qed
qed

theorem cluster_state_parse_witness:
  "handleClusterState oneDocument
      (Some \<lparr> data = Some ''{'', version = Some 1, children = None \<rparr>) Manatee
     = Inr (Manatee\<lparr> emitted := [Error parseErrorMsg] \<rparr>)
   \<and> handleClusterState oneDocument docView Manatee
     = Inr (Manatee\<lparr> clusterState := JObj [(''primary'', JObj [(''pgUrl'', JStr ''tcp://1.1.1.1:5432'')])],
                     urls := [JStr ''tcp://1.1.1.1:5432''] \<rparr>)"
proof -
  have a: "dataOf (Some \<lparr> data = Some ''{'', version = Some 1, children = None \<rparr>) = Some ''{''
           \<and> oneDocument ''{'' = None"
    by (simp add: dataOf_def oneDocument_def)
  have b: "dataOf docView = Some ''doc''
           \<and> oneDocument ''doc'' = Some (JObj [(''primary'', JObj [(''pgUrl'', JStr ''tcp://1.1.1.1:5432'')])])"
    by (simp add: dataOf_def oneDocument_def docView_def)
  from cluster_state_parse[where res = "Some \<lparr> data = Some ''{'', version = Some 1, children = None \<rparr>"
      and d = "''{''" and parse = oneDocument and s = Manatee] a
  have 1: "handleClusterState oneDocument
      (Some \<lparr> data = Some ''{'', version = Some 1, children = None \<rparr>) Manatee
     = Inr (Manatee\<lparr> emitted := [Error parseErrorMsg] \<rparr>)"
    by (simp add: Manatee_def)
  from cluster_state_parse[where res = docView and d = "''doc''" and parse = oneDocument
        and cs = "JObj [(''primary'', JObj [(''pgUrl'', JStr ''tcp://1.1.1.1:5432'')])]"
        and s = Manatee] b
  have 2: "handleClusterState oneDocument docView Manatee
     = Inr (Manatee\<lparr> clusterState := JObj [(''primary'', JObj [(''pgUrl'', JStr ''tcp://1.1.1.1:5432'')])],
                     urls := [JStr ''tcp://1.1.1.1:5432''] \<rparr>)"
    by (simp add: url_defs handleTopologyChange_cases elementwiseEqual_def orEmpty_def Manatee_def)
  from 1 2 show ?thesis by simp
qed

section \<open>Facts about the life cycle of the client\<close>

lemma topologiesOf_append: "topologiesOf (es @ fs) = topologiesOf es @ topologiesOf fs"
  by (induction es rule: topologiesOf.induct) auto

lemma count_list_Ready_zero: "Ready \<notin> set es \<Longrightarrow> count_list es Ready = 0"
  by (induction es) auto

lemma readyBeforeTopology_append:
  "readyBeforeTopology es \<Longrightarrow> Ready \<in> set es \<Longrightarrow> readyBeforeTopology (es @ fs)"
  by (induction es rule: readyBeforeTopology.induct) auto

lemma readyBeforeTopology_first:
  "Ready \<notin> set es \<Longrightarrow> topologiesOf es = [] \<Longrightarrow> readyBeforeTopology (es @ Ready # fs)"
  by (induction es rule: readyBeforeTopology.induct) auto

lemma readyBeforeTopology_none:
  "topologiesOf es = [] \<Longrightarrow> readyBeforeTopology es"
  by (induction es rule: readyBeforeTopology.induct) auto

lemma count_list_one_mem: "count_list es Ready = Suc 0 \<Longrightarrow> Ready \<in> set es"
  by (metis count_list_0_iff nat.distinct(1))

text \<open>Appending events other than ready keeps the invariant, a topology only when inited.\<close>

lemma readyInvariant_emit:
  assumes "readyInvariant s" and "e \<noteq> Ready" and "inited s \<or> (\<forall>u. e \<noteq> Topology u)"
  shows "readyInvariant (s\<lparr> emitted := emitted s @ [e] \<rparr>)"
proof (cases "inited s")
  case True
  with assms have "Ready \<in> set (emitted s)" "readyBeforeTopology (emitted s)"
    by (auto simp: readyInvariant_def intro: count_list_one_mem)
  then have "readyBeforeTopology (emitted s @ [e])"
    by (rule readyBeforeTopology_append[rotated])
  with True assms show ?thesis
    by (auto simp: readyInvariant_def)
next
  case False
  with assms have "\<forall>u. e \<noteq> Topology u" by simp
  then have "topologiesOf [e] = []" by (cases e) auto
  with False assms show ?thesis
    by (auto simp: readyInvariant_def topologiesOf_append)
qed

lemma readyInvariant_handleTopologyChange:
  "readyInvariant s \<Longrightarrow> readyInvariant (handleTopologyChange u s)"
proof -
  assume inv: "readyInvariant s"
  have upd: "readyInvariant (s\<lparr> urls := orEmpty u \<rparr>)"
    using inv by (simp add: readyInvariant_def)
  show ?thesis
  proof (cases "inited s \<and> \<not> elementwiseEqual (urls s) (orEmpty u)")
    case True
    then have "handleTopologyChange u s
       = (s\<lparr> urls := orEmpty u \<rparr>)\<lparr> emitted := emitted (s\<lparr> urls := orEmpty u \<rparr>) @ [Topology (orEmpty u)] \<rparr>"
      by (simp add: handleTopologyChange_cases)
    moreover have "readyInvariant ((s\<lparr> urls := orEmpty u \<rparr>)\<lparr> emitted := emitted (s\<lparr> urls := orEmpty u \<rparr>) @ [Topology (orEmpty u)] \<rparr>)"
      using True by (intro readyInvariant_emit upd) auto
    ultimately show ?thesis by simp
  next
    case False
    then show ?thesis using inv upd by (auto simp: handleTopologyChange_cases)
  qed
qed

lemma readyInvariant_topologyFromActives:
  "readyInvariant s \<Longrightarrow> readyInvariant (topologyFromActives s)"
  unfolding topologyFromActives_def
  by (rule readyInvariant_handleTopologyChange) (simp add: readyInvariant_def)

lemma readyInvariant_handleClusterState:
  assumes "readyInvariant s"
  shows "readyInvariant (lastState (handleClusterState parse res s))"
proof (cases "dataOf res")
  case None
  have "readyInvariant (s\<lparr> clusterState := JNull \<rparr>)"
    using assms by (simp add: readyInvariant_def)
  then show ?thesis
    using None assms
    by (auto simp: handleClusterState_def lastState_def Let_def intro: readyInvariant_topologyFromActives)
next
  case (Some d)
  show ?thesis
  proof (cases "parse d")
    case None
    have "readyInvariant (s\<lparr> emitted := emitted s @ [Error parseErrorMsg] \<rparr>)"
      using assms by (intro readyInvariant_emit) auto
    then show ?thesis
      using None Some by (simp add: handleClusterState_def lastState_def emit_def)
  next
    case (Some cs)
    have "readyInvariant (s\<lparr> clusterState := cs \<rparr>)"
      using assms by (simp add: readyInvariant_def)
    then show ?thesis
      using Some \<open>dataOf res = Some d\<close>
      by (auto simp: handleClusterState_def lastState_def Let_def split: sum.splits
               intro: readyInvariant_handleTopologyChange)
  qed
qed

lemma readyInvariant_handleActive:
  assumes "readyInvariant s"
  shows "readyInvariant (handleActive res s)"
proof -
  have "\<And>a. readyInvariant (s\<lparr> actives := a \<rparr>)"
    using assms by (simp add: readyInvariant_def)
  then show ?thesis
    by (auto simp: handleActive_def Let_def split: option.splits
             intro: readyInvariant_topologyFromActives)
qed

lemma close_cases:
  "\<exists>d. close s =
     (if closedFlag s then s\<lparr> detached := d \<rparr>
      else s\<lparr> detached := d, closedFlag := True, emitted := emitted s @ [Close] \<rparr>)"
proof (cases "zk s")
  case None
  have "s = s\<lparr> detached := detached s \<rparr>" by simp
  then have "close s =
     (if closedFlag s then s\<lparr> detached := detached s \<rparr>
      else s\<lparr> detached := detached s, closedFlag := True, emitted := emitted s @ [Close] \<rparr>)"
    using None by (simp add: close_def emit_def)
  then show ?thesis by blast
next
  case (Some h)
  then have "close s =
     (if closedFlag s then s\<lparr> detached := h # detached s \<rparr>
      else s\<lparr> detached := h # detached s, closedFlag := True, emitted := emitted s @ [Close] \<rparr>)"
    by (simp add: close_def emit_def)
  then show ?thesis by blast
qed

lemma readyInvariant_close: "readyInvariant s \<Longrightarrow> readyInvariant (close s)"
proof -
  assume inv: "readyInvariant s"
  obtain d where d: "close s =
     (if closedFlag s then s\<lparr> detached := d \<rparr>
      else s\<lparr> detached := d, closedFlag := True, emitted := emitted s @ [Close] \<rparr>)"
    using close_cases by blast
  have 1: "readyInvariant (s\<lparr> detached := d \<rparr>)" using inv by (simp add: readyInvariant_def)
  have 2: "readyInvariant (s\<lparr> detached := d, closedFlag := True \<rparr>)"
    using inv by (simp add: readyInvariant_def)
  have "readyInvariant ((s\<lparr> detached := d, closedFlag := True \<rparr>)
      \<lparr> emitted := emitted (s\<lparr> detached := d, closedFlag := True \<rparr>) @ [Close] \<rparr>)"
    using 2 by (intro readyInvariant_emit) auto
  then show ?thesis using 1 d by simp
qed

lemma readyInvariant_resetZkClientOnce:
  "readyInvariant s \<Longrightarrow> readyInvariant (resetZkClientOnce h s)"
  by (simp add: readyInvariant_def resetZkClientOnce_def)

lemma readyInvariant_setWatchesOnce:
  "readyInvariant s \<Longrightarrow> readyInvariant (setWatchesOnce h s)"
  by (simp add: readyInvariant_def setWatchesOnce_def)

text \<open>Every action but the set-up callback without error keeps the invariant.\<close>

lemma readyInvariant_perform:
  assumes "readyInvariant s" and "\<not> isSetWatchesSuccess a"
  shows "readyInvariant (lastState (perform parse a s))"
  using assms
  by (cases a)
     (auto simp: lastState_def readyInvariant_handleActive readyInvariant_close
        readyInvariant_resetZkClientOnce readyInvariant_setWatchesOnce
        intro: readyInvariant_handleClusterState[unfolded lastState_def])

lemma runTicks_no_emit:
  "list_all (\<lambda>t. \<not> isEmitTick t) q \<Longrightarrow>
     \<exists>z n. foldl (\<lambda>s1 t. runTick t s1) s q = s\<lparr> zk := z, zkCreated := n \<rparr>"
proof (induction q arbitrary: s)
  case Nil
  have "s = s\<lparr> zk := zk s, zkCreated := zkCreated s \<rparr>" by simp
  then show ?case by (metis foldl_Nil)
next
  case (Cons t q)
  then have t: "runTick t s = setupZkClient s" by (cases t) auto
  from Cons obtain z n where
    "foldl (\<lambda>s1 t. runTick t s1) (setupZkClient s) q = (setupZkClient s)\<lparr> zk := z, zkCreated := n \<rparr>"
    by fastforce
  then have "foldl (\<lambda>s1 t. runTick t s1) s (t # q) = s\<lparr> zk := z, zkCreated := n \<rparr>"
    by (simp add: t setupZkClient_def)
  then show ?case by blast
qed

lemma readyInvariant_drainTicks:
  assumes "readyInvariant s"
  shows "readyInvariant (drainTicks s)"
proof -
  have q: "list_all (\<lambda>t. \<not> isEmitTick t) (nextTickQueue s)"
    using assms by (simp add: readyInvariant_def)
  obtain z n where
    "drainTicks s = s\<lparr> nextTickQueue := [], zk := z, zkCreated := n \<rparr>"
    using runTicks_no_emit[OF q, of "s\<lparr> nextTickQueue := [] \<rparr>"]
    by (auto simp: drainTicks_def)
  then show ?thesis using assms by (simp add: readyInvariant_def)
qed

lemma readyInvariant_emitReady_drain:
  assumes "readyInvariant s"
  shows "readyInvariant (drainTicks (emitReady s))"
proof (cases "emitReadyCalled s")
  case True
  then show ?thesis using assms by (simp add: emitReady_def readyInvariant_drainTicks)
next
  case False
  then have ni: "\<not> inited s" "Ready \<notin> set (emitted s)" "topologiesOf (emitted s) = []"
    and q: "list_all (\<lambda>t. \<not> isEmitTick t) (nextTickQueue s)"
    using assms by (auto simp: readyInvariant_def)
  let ?s0 = "s\<lparr> emitReadyCalled := True, inited := True, nextTickQueue := [] \<rparr>"
  obtain z n where f: "foldl (\<lambda>s1 t. runTick t s1) ?s0 (nextTickQueue s) = ?s0\<lparr> zk := z, zkCreated := n \<rparr>"
    using runTicks_no_emit[OF q] by blast
  have "drainTicks (emitReady s) =
      ?s0\<lparr> zk := z, zkCreated := n, emitted := emitted s @ [Ready, Topology (urls s)] \<rparr>"
    using False by (simp add: drainTicks_def emitReady_def f emit_def)
  moreover have "readyBeforeTopology (emitted s @ Ready # [Topology (urls s)])"
    using ni by (intro readyBeforeTopology_first)
  ultimately show ?thesis
    using ni by (simp add: readyInvariant_def count_list_Ready_zero)
qed

lemma readyInvariant_turn:
  assumes "readyInvariant s" and "setWatchesCallbackLast as"
  shows "readyInvariant (lastState (turn parse as s))"
  using assms
proof (induction as arbitrary: s)
  case Nil
  then show ?case by (simp add: turn_def lastState_def readyInvariant_drainTicks)
next
  case (Cons a as)
  show ?case
  proof (cases "isSetWatchesSuccess a")
    case True
    then have "as = []" using Cons.prems(2) by (auto simp: setWatchesCallbackLast_def split: if_splits)
    moreover obtain h where "a = SetWatchesCallback h False" using True by (cases a) auto
    ultimately show ?thesis
      using Cons.prems(1) by (simp add: turn_def lastState_def readyInvariant_emitReady_drain)
  next
    case False
    have inv1: "readyInvariant (lastState (perform parse a s))"
      using Cons.prems(1) False by (rule readyInvariant_perform)
    have wf: "setWatchesCallbackLast as"
      using Cons.prems(2) by (auto simp: setWatchesCallbackLast_def split: if_splits)
    show ?thesis
    proof (cases "perform parse a s")
      case (Inl x)
      then show ?thesis using inv1 by (simp add: turn_def)
    next
      case (Inr s1)
      then have "turn parse (a # as) s = turn parse as s1" by (simp add: turn_def)
      moreover have "readyInvariant s1" using inv1 Inr by (simp add: lastState_def)
      ultimately show ?thesis using Cons.IH wf by simp
    qed
  qed
qed

lemma readyInvariant_run:
  assumes "readyInvariant s" and "\<forall>t\<in>set turns. setWatchesCallbackLast t"
  shows "readyInvariant (lastState (run parse turns s))"
  using assms
proof (induction turns arbitrary: s)
  case Nil
  then show ?case by (simp add: lastState_def)
next
  case (Cons t turns)
  have inv1: "readyInvariant (lastState (turn parse t s))"
    using Cons.prems by (intro readyInvariant_turn) auto
  show ?case
  proof (cases "turn parse t s")
    case (Inl x)
    then show ?thesis using inv1 by simp
  next
    case (Inr s1)
    then have "readyInvariant s1" using inv1 by (simp add: lastState_def)
    then show ?thesis using Cons.IH Cons.prems(2) Inr by simp
  qed
qed

text \<open>When inited changes: only by a set-up callback without error.\<close>

lemma inited_handleTopologyChange [simp]: "inited (handleTopologyChange u s) = inited s"
  by (simp add: handleTopologyChange_cases)

lemma inited_topologyFromActives [simp]: "inited (topologyFromActives s) = inited s"
  by (simp add: topologyFromActives_def)

lemma inited_perform:
  assumes "perform parse a s = Inr s1" and "emitReadyCalled s = inited s"
  shows "inited s1 = (inited s \<or> isSetWatchesSuccess a) \<and> emitReadyCalled s1 = inited s1"
proof (cases a)
  case (HandleClusterState res)
  with assms show ?thesis
    by (auto simp: handleClusterState_def Let_def emit_def topologyFromActives_def handleTopologyChange_cases
             split: option.splits if_splits sum.splits)
next
  case (HandleActive res)
  with assms show ?thesis
    by (auto simp: handleActive_def Let_def topologyFromActives_def handleTopologyChange_cases
             split: option.splits if_splits)
next
  case CloseCall
  obtain d where "close s =
     (if closedFlag s then s\<lparr> detached := d \<rparr>
      else s\<lparr> detached := d, closedFlag := True, emitted := emitted s @ [Close] \<rparr>)"
    using close_cases by blast
  then have "inited (close s) = inited s \<and> emitReadyCalled (close s) = emitReadyCalled s"
    by (cases "closedFlag s") simp_all
  with CloseCall assms show ?thesis by auto
qed (insert assms, auto simp: setWatchesOnce_def resetZkClientOnce_def emitReady_def split: if_splits)

lemma inited_performAll:
  assumes "performAll parse as s = Inr s1" and "emitReadyCalled s = inited s"
  shows "inited s1 = (inited s \<or> list_ex isSetWatchesSuccess as) \<and> emitReadyCalled s1 = inited s1"
  using assms
proof (induction as arbitrary: s)
  case Nil
  then show ?case by simp
next
  case (Cons a as)
  then obtain s2 where s2: "perform parse a s = Inr s2" "performAll parse as s2 = Inr s1"
    by (auto split: sum.splits)
  from inited_perform[OF s2(1) Cons.prems(2)] Cons.IH[OF s2(2)]
  show ?case by auto
qed

lemma inited_runTicks:
  "inited (foldl (\<lambda>s1 t. runTick t s1) s q) = inited s
   \<and> emitReadyCalled (foldl (\<lambda>s1 t. runTick t s1) s q) = emitReadyCalled s"
proof (induction q arbitrary: s)
  case Nil
  then show ?case by simp
next
  case (Cons t q)
  have "inited (runTick t s) = inited s \<and> emitReadyCalled (runTick t s) = emitReadyCalled s"
    by (cases t) (auto simp: setupZkClient_def emit_def)
  then show ?case using Cons.IH[of "runTick t s"] by simp
qed

lemma inited_drainTicks:
  "inited (drainTicks s) = inited s \<and> emitReadyCalled (drainTicks s) = emitReadyCalled s"
  using inited_runTicks[of "s\<lparr> nextTickQueue := [] \<rparr>" "nextTickQueue s"]
  by (simp add: drainTicks_def)

lemma inited_turn:
  assumes "turn parse as s = Inr s1" and "emitReadyCalled s = inited s"
  shows "inited s1 = (inited s \<or> list_ex isSetWatchesSuccess as) \<and> emitReadyCalled s1 = inited s1"
proof -
  obtain s2 where s2: "performAll parse as s = Inr s2" "s1 = drainTicks s2"
    using assms(1) by (auto simp: turn_def split: sum.splits)
  from inited_performAll[OF s2(1) assms(2)] inited_drainTicks[of s2] s2(2)
  show ?thesis by simp
qed

lemma inited_run:
  assumes "run parse turns s = Inr s1" and "emitReadyCalled s = inited s"
  shows "inited s1 = (inited s \<or> setWatchesSucceeded turns)"
  using assms
proof (induction turns arbitrary: s)
  case Nil
  then show ?case by (simp add: setWatchesSucceeded_def)
next
  case (Cons t turns)
  then obtain s2 where s2: "turn parse t s = Inr s2" "run parse turns s2 = Inr s1"
    by (auto split: sum.splits)
  from inited_turn[OF s2(1) Cons.prems(2)] Cons.IH[OF s2(2)]
  show ?case by (auto simp: setWatchesSucceeded_def)
qed

text \<open>The debounce over a whole life.\<close>

lemma noRepeat_snoc:
  "noRepeat ts \<Longrightarrow> ts = [] \<or> \<not> elementwiseEqual (last ts) t \<Longrightarrow> noRepeat (ts @ [t])"
  by (induction ts rule: noRepeat.induct) auto

lemma topologiesOf_snoc_other:
  "(\<forall>u. e \<noteq> Topology u) \<Longrightarrow> topologiesOf (es @ [e]) = topologiesOf es"
  by (cases e) (auto simp: topologiesOf_append)

lemma debounceInvariant_handleTopologyChange:
  assumes "debounceInvariant s" and "readyInvariant s"
  shows "debounceInvariant (handleTopologyChange u s)"
proof (cases "elementwiseEqual (urls s) (orEmpty u)")
  case True
  then show ?thesis using assms by (simp add: handleTopologyChange_cases)
next
  case False
  show ?thesis
  proof (cases "inited s")
    case True
    with assms have l: "topologiesOf (emitted s) \<noteq> []" "last (topologiesOf (emitted s)) = urls s"
        "noRepeat (topologiesOf (emitted s))"
      by (auto simp: debounceInvariant_def)
    then have "noRepeat (topologiesOf (emitted s) @ [orEmpty u])"
      using False by (intro noRepeat_snoc) auto
    then show ?thesis
      using True False by (simp add: handleTopologyChange_cases debounceInvariant_def topologiesOf_append)
  next
    case False
    then show ?thesis
      using assms \<open>\<not> elementwiseEqual (urls s) (orEmpty u)\<close>
      by (simp add: handleTopologyChange_cases debounceInvariant_def)
  qed
qed

lemma debounceInvariant_topologyFromActives:
  assumes "debounceInvariant s" and "readyInvariant s"
  shows "debounceInvariant (topologyFromActives s)"
  unfolding topologyFromActives_def
  using assms
  by (intro debounceInvariant_handleTopologyChange) (simp_all add: debounceInvariant_def readyInvariant_def)

lemma debounceInvariant_emit_other:
  assumes "debounceInvariant s" and "\<forall>u. e \<noteq> Topology u"
  shows "debounceInvariant (s\<lparr> emitted := emitted s @ [e] \<rparr>)"
  using assms by (simp add: debounceInvariant_def topologiesOf_snoc_other)

lemma debounceInvariant_handleClusterState:
  assumes "debounceInvariant s" and "readyInvariant s"
  shows "debounceInvariant (lastState (handleClusterState parse res s))"
proof (cases "dataOf res")
  case None
  have "debounceInvariant (s\<lparr> clusterState := JNull \<rparr>)" "readyInvariant (s\<lparr> clusterState := JNull \<rparr>)"
    using assms by (simp_all add: debounceInvariant_def readyInvariant_def)
  then show ?thesis
    using None assms
    by (auto simp: handleClusterState_def lastState_def Let_def intro: debounceInvariant_topologyFromActives)
next
  case (Some d)
  show ?thesis
  proof (cases "parse d")
    case None
    have "debounceInvariant (s\<lparr> emitted := emitted s @ [Error parseErrorMsg] \<rparr>)"
      using assms(1) by (intro debounceInvariant_emit_other) auto
    then show ?thesis
      using None Some by (simp add: handleClusterState_def lastState_def emit_def)
  next
    case (Some cs)
    have "debounceInvariant (s\<lparr> clusterState := cs \<rparr>)" "readyInvariant (s\<lparr> clusterState := cs \<rparr>)"
      using assms by (simp_all add: debounceInvariant_def readyInvariant_def)
    then show ?thesis
      using Some \<open>dataOf res = Some d\<close>
      by (auto simp: handleClusterState_def lastState_def Let_def split: sum.splits
               intro: debounceInvariant_handleTopologyChange)
  qed
qed

lemma debounceInvariant_handleActive:
  assumes "debounceInvariant s" and "readyInvariant s"
  shows "debounceInvariant (handleActive res s)"
proof -
  have "\<And>a. debounceInvariant (s\<lparr> actives := a \<rparr>)" "\<And>a. readyInvariant (s\<lparr> actives := a \<rparr>)"
    using assms by (simp_all add: debounceInvariant_def readyInvariant_def)
  then show ?thesis
    by (auto simp: handleActive_def Let_def split: option.splits
             intro: debounceInvariant_topologyFromActives)
qed

lemma debounceInvariant_close: "debounceInvariant s \<Longrightarrow> debounceInvariant (close s)"
proof -
  assume inv: "debounceInvariant s"
  obtain d where d: "close s =
     (if closedFlag s then s\<lparr> detached := d \<rparr>
      else s\<lparr> detached := d, closedFlag := True, emitted := emitted s @ [Close] \<rparr>)"
    using close_cases by blast
  have 1: "debounceInvariant (s\<lparr> detached := d \<rparr>)" using inv by (simp add: debounceInvariant_def)
  have 2: "debounceInvariant (s\<lparr> detached := d, closedFlag := True \<rparr>)"
    using inv by (simp add: debounceInvariant_def)
  have "debounceInvariant ((s\<lparr> detached := d, closedFlag := True \<rparr>)
      \<lparr> emitted := emitted (s\<lparr> detached := d, closedFlag := True \<rparr>) @ [Close] \<rparr>)"
    using 2 by (intro debounceInvariant_emit_other) auto
  then show ?thesis using 1 d by simp
qed

lemma debounceInvariant_perform:
  assumes "debounceInvariant s" and "readyInvariant s" and "\<not> isSetWatchesSuccess a"
  shows "debounceInvariant (lastState (perform parse a s))"
proof (cases a)
  case (HandleClusterState res)
  then show ?thesis using assms by (simp add: debounceInvariant_handleClusterState)
next
  case (HandleActive res)
  then show ?thesis using assms by (simp add: lastState_def debounceInvariant_handleActive)
next
  case CloseCall
  then show ?thesis using assms by (simp add: lastState_def debounceInvariant_close)
qed (insert assms, auto simp: lastState_def debounceInvariant_def setWatchesOnce_def resetZkClientOnce_def)

lemma debounceInvariant_drainTicks:
  assumes "debounceInvariant s" and "readyInvariant s"
  shows "debounceInvariant (drainTicks s)"
proof -
  have q: "list_all (\<lambda>t. \<not> isEmitTick t) (nextTickQueue s)"
    using assms by (simp add: readyInvariant_def)
  obtain z n where
    "drainTicks s = s\<lparr> nextTickQueue := [], zk := z, zkCreated := n \<rparr>"
    using runTicks_no_emit[OF q, of "s\<lparr> nextTickQueue := [] \<rparr>"]
    by (auto simp: drainTicks_def)
  then show ?thesis using assms by (simp add: debounceInvariant_def)
qed

lemma debounceInvariant_emitReady_drain:
  assumes "debounceInvariant s" and "readyInvariant s"
  shows "debounceInvariant (drainTicks (emitReady s))"
proof (cases "emitReadyCalled s")
  case True
  then show ?thesis using assms by (simp add: emitReady_def debounceInvariant_drainTicks)
next
  case False
  then have ni: "\<not> inited s" "topologiesOf (emitted s) = []"
    and q: "list_all (\<lambda>t. \<not> isEmitTick t) (nextTickQueue s)"
    using assms by (auto simp: readyInvariant_def)
  let ?s0 = "s\<lparr> emitReadyCalled := True, inited := True, nextTickQueue := [] \<rparr>"
  obtain z n where f: "foldl (\<lambda>s1 t. runTick t s1) ?s0 (nextTickQueue s) = ?s0\<lparr> zk := z, zkCreated := n \<rparr>"
    using runTicks_no_emit[OF q] by blast
  have "drainTicks (emitReady s) =
      ?s0\<lparr> zk := z, zkCreated := n, emitted := emitted s @ [Ready, Topology (urls s)] \<rparr>"
    using False by (simp add: drainTicks_def emitReady_def f emit_def)
  then show ?thesis
    using ni by (simp add: debounceInvariant_def topologiesOf_append)
qed

lemma invariants_turn:
  assumes "debounceInvariant s" and "readyInvariant s" and "setWatchesCallbackLast as"
  shows "debounceInvariant (lastState (turn parse as s))"
  using assms
proof (induction as arbitrary: s)
  case Nil
  then show ?case by (simp add: turn_def lastState_def debounceInvariant_drainTicks)
next
  case (Cons a as)
  show ?case
  proof (cases "isSetWatchesSuccess a")
    case True
    then have "as = []" using Cons.prems(3) by (auto simp: setWatchesCallbackLast_def split: if_splits)
    moreover obtain h where "a = SetWatchesCallback h False" using True by (cases a) auto
    ultimately show ?thesis
      using Cons.prems by (simp add: turn_def lastState_def debounceInvariant_emitReady_drain)
  next
    case False
    have inv1: "debounceInvariant (lastState (perform parse a s))"
      using Cons.prems(1,2) False by (rule debounceInvariant_perform)
    have inv2: "readyInvariant (lastState (perform parse a s))"
      using Cons.prems(2) False by (rule readyInvariant_perform)
    have wf: "setWatchesCallbackLast as"
      using Cons.prems(3) by (auto simp: setWatchesCallbackLast_def split: if_splits)
    show ?thesis
    proof (cases "perform parse a s")
      case (Inl x)
      then show ?thesis using inv1 by (simp add: turn_def)
    next
      case (Inr s1)
      then have "turn parse (a # as) s = turn parse as s1" by (simp add: turn_def)
      moreover have "debounceInvariant s1" "readyInvariant s1"
        using inv1 inv2 Inr by (simp_all add: lastState_def)
      ultimately show ?thesis using Cons.IH wf by simp
    qed
  qed
qed

lemma invariants_run:
  assumes "debounceInvariant s" and "readyInvariant s" and "\<forall>t\<in>set turns. setWatchesCallbackLast t"
  shows "debounceInvariant (lastState (run parse turns s))"
  using assms
proof (induction turns arbitrary: s)
  case Nil
  then show ?case by (simp add: lastState_def)
next
  case (Cons t turns)
  have inv1: "debounceInvariant (lastState (turn parse t s))"
    using Cons.prems by (intro invariants_turn) auto
  have inv2: "readyInvariant (lastState (turn parse t s))"
    using Cons.prems by (intro readyInvariant_turn) auto
  show ?case
  proof (cases "turn parse t s")
    case (Inl x)
    then show ?thesis using inv1 by simp
  next
    case (Inr s1)
    then have "debounceInvariant s1" "readyInvariant s1" using inv1 inv2 by (simp_all add: lastState_def)
    then show ?thesis using Cons.IH Cons.prems(3) Inr by simp
  qed
qed

lemma lifetime_no_repeat:
  assumes "\<forall>t\<in>set turns. setWatchesCallbackLast t"
  shows "noRepeat (topologiesOf (emitted (lastState (lifetime parse turns))))"
proof -
  have "debounceInvariant Manatee" "readyInvariant Manatee"
    by (simp_all add: debounceInvariant_def readyInvariant_def Manatee_def)
  moreover have "\<forall>t\<in>set ([] # turns). setWatchesCallbackLast t"
    using assms by (simp add: setWatchesCallbackLast_def)
  ultimately have "debounceInvariant (lastState (lifetime parse turns))"
    unfolding lifetime_def by (intro invariants_run)
  then show ?thesis by (simp add: debounceInvariant_def)
qed

text \<open>
  C4. One call of \<open>handleTopologyChange\<close> changes nothing when the new list is
  element-wise equal to the stored one; otherwise it stores the new list and, when the
  client is inited, emits it. So over every sequence of calls, from every state, no
  topology emitted is element-wise equal to the one emitted before it, nor the first to
  the list stored at the start. Over a whole life of the client, the topology that
  follows \<open>ready\<close> included, no topology emitted is element-wise equal to the one
  before it (under the schedule in which the callback that ends \<open>setWatches\<close> is
  the last action of its turn).
\<close>

theorem debounce_no_repeat:
  "handleTopologyChange u s =
     (if elementwiseEqual (urls s) (orEmpty u) then s
      else if inited s then s\<lparr> urls := orEmpty u, emitted := emitted s @ [Topology (orEmpty u)] \<rparr>
      else s\<lparr> urls := orEmpty u \<rparr>)
   \<and> noRepeat (urls s # topologiesOf (emittedSince s (handleTopologyChanges calls s)))
   \<and> ((\<forall>t\<in>set turns. setWatchesCallbackLast t) \<longrightarrow>
        noRepeat (topologiesOf (emitted (lastState (lifetime parse turns)))))"
  using handleTopologyChange_cases handleTopologyChanges_noRepeat lifetime_no_repeat by blast

theorem debounce_no_repeat_witness:
  "emitted (handleTopologyChanges
       [Some [JStr ''tcp://1.1.1.1:5432''], Some [JStr ''tcp://1.1.1.1:5432''],
        Some [JStr ''tcp://1.1.1.1:5432'', JStr ''tcp://2.2.2.2:5432''], None]
       (Manatee\<lparr> inited := True \<rparr>))
     = [Topology [JStr ''tcp://1.1.1.1:5432''],
        Topology [JStr ''tcp://1.1.1.1:5432'', JStr ''tcp://2.2.2.2:5432''],
        Topology []]
   \<and> noRepeat [[], [JStr ''tcp://1.1.1.1:5432''],
         [JStr ''tcp://1.1.1.1:5432'', JStr ''tcp://2.2.2.2:5432''], []]"
proof -
  let ?calls = "[Some [JStr ''tcp://1.1.1.1:5432''], Some [JStr ''tcp://1.1.1.1:5432''],
        Some [JStr ''tcp://1.1.1.1:5432'', JStr ''tcp://2.2.2.2:5432''], None]"
  let ?s = "Manatee\<lparr> inited := True \<rparr>"
  have e: "emitted (handleTopologyChanges ?calls ?s)
     = [Topology [JStr ''tcp://1.1.1.1:5432''],
        Topology [JStr ''tcp://1.1.1.1:5432'', JStr ''tcp://2.2.2.2:5432''],
        Topology []]"
    by (simp add: handleTopologyChanges_def handleTopologyChange_cases elementwiseEqual_def
          orEmpty_def Manatee_def)
  from debounce_no_repeat[where u = "Some []" and s = ?s and calls = ?calls]
  have "noRepeat (urls ?s # topologiesOf (emittedSince ?s (handleTopologyChanges ?calls ?s)))"
    by blast
  then show ?thesis using e by (simp add: emittedSince_def Manatee_def)
qed

text \<open>The count of \<open>ready\<close> over a whole life, whatever the schedule.\<close>

lemma pendingEvents_append: "pendingEvents (q @ r) = pendingEvents q @ pendingEvents r"
  by (induction q rule: pendingEvents.induct) auto

lemma readyCount_emit:
  assumes "readyCountInvariant s" and "e \<noteq> Ready" and "inited s \<or> (\<forall>u. e \<noteq> Topology u)"
  shows "readyCountInvariant (s\<lparr> emitted := emitted s @ [e] \<rparr>)"
proof (cases "inited s")
  case True
  with assms show ?thesis by (simp add: readyCountInvariant_def)
next
  case False
  with assms have "\<forall>u. e \<noteq> Topology u" by simp
  then have "topologiesOf [e] = []" by (cases e) auto
  with False assms show ?thesis
    by (simp add: readyCountInvariant_def topologiesOf_append)
qed

lemma readyCount_handleTopologyChange:
  assumes "readyCountInvariant s"
  shows "readyCountInvariant (handleTopologyChange u s)"
proof -
  have upd: "readyCountInvariant (s\<lparr> urls := orEmpty u \<rparr>)"
    using assms by (simp add: readyCountInvariant_def)
  show ?thesis
  proof (cases "inited s \<and> \<not> elementwiseEqual (urls s) (orEmpty u)")
    case True
    then have "handleTopologyChange u s
       = (s\<lparr> urls := orEmpty u \<rparr>)\<lparr> emitted := emitted (s\<lparr> urls := orEmpty u \<rparr>) @ [Topology (orEmpty u)] \<rparr>"
      by (simp add: handleTopologyChange_cases)
    moreover have "readyCountInvariant ((s\<lparr> urls := orEmpty u \<rparr>)\<lparr> emitted := emitted (s\<lparr> urls := orEmpty u \<rparr>) @ [Topology (orEmpty u)] \<rparr>)"
      using True by (intro readyCount_emit upd) auto
    ultimately show ?thesis by simp
  next
    case False
    then show ?thesis using assms upd by (auto simp: handleTopologyChange_cases)
  qed
qed

lemma readyCount_topologyFromActives:
  "readyCountInvariant s \<Longrightarrow> readyCountInvariant (topologyFromActives s)"
  unfolding topologyFromActives_def
  by (rule readyCount_handleTopologyChange) (simp add: readyCountInvariant_def)

lemma readyCount_handleClusterState:
  assumes "readyCountInvariant s"
  shows "readyCountInvariant (lastState (handleClusterState parse res s))"
proof (cases "dataOf res")
  case None
  have "readyCountInvariant (s\<lparr> clusterState := JNull \<rparr>)"
    using assms by (simp add: readyCountInvariant_def)
  then show ?thesis
    using None assms
    by (auto simp: handleClusterState_def lastState_def Let_def intro: readyCount_topologyFromActives)
next
  case (Some d)
  show ?thesis
  proof (cases "parse d")
    case None
    have "readyCountInvariant (s\<lparr> emitted := emitted s @ [Error parseErrorMsg] \<rparr>)"
      using assms by (intro readyCount_emit) auto
    then show ?thesis
      using None Some by (simp add: handleClusterState_def lastState_def emit_def)
  next
    case (Some cs)
    have "readyCountInvariant (s\<lparr> clusterState := cs \<rparr>)"
      using assms by (simp add: readyCountInvariant_def)
    then show ?thesis
      using Some \<open>dataOf res = Some d\<close>
      by (auto simp: handleClusterState_def lastState_def Let_def split: sum.splits
               intro: readyCount_handleTopologyChange)
  qed
qed

lemma readyCount_handleActive:
  assumes "readyCountInvariant s"
  shows "readyCountInvariant (handleActive res s)"
proof -
  have "\<And>a. readyCountInvariant (s\<lparr> actives := a \<rparr>)"
    using assms by (simp add: readyCountInvariant_def)
  then show ?thesis
    by (auto simp: handleActive_def Let_def split: option.splits
             intro: readyCount_topologyFromActives)
qed

lemma readyCount_close: "readyCountInvariant s \<Longrightarrow> readyCountInvariant (close s)"
proof -
  assume inv: "readyCountInvariant s"
  obtain d where d: "close s =
     (if closedFlag s then s\<lparr> detached := d \<rparr>
      else s\<lparr> detached := d, closedFlag := True, emitted := emitted s @ [Close] \<rparr>)"
    using close_cases by blast
  have 1: "readyCountInvariant (s\<lparr> detached := d \<rparr>)" using inv by (simp add: readyCountInvariant_def)
  have 2: "readyCountInvariant (s\<lparr> detached := d, closedFlag := True \<rparr>)"
    using inv by (simp add: readyCountInvariant_def)
  have "readyCountInvariant ((s\<lparr> detached := d, closedFlag := True \<rparr>)
      \<lparr> emitted := emitted (s\<lparr> detached := d, closedFlag := True \<rparr>) @ [Close] \<rparr>)"
    using 2 by (intro readyCount_emit) auto
  then show ?thesis using 1 d by simp
qed

lemma readyCount_resetZkClientOnce:
  "readyCountInvariant s \<Longrightarrow> readyCountInvariant (resetZkClientOnce h s)"
  by (cases "h \<in> set (resetZkClientCalled s)")
     (simp_all add: readyCountInvariant_def resetZkClientOnce_def pendingEvents_append)

lemma readyCount_setWatchesOnce:
  "readyCountInvariant s \<Longrightarrow> readyCountInvariant (setWatchesOnce h s)"
  by (cases "h \<in> set (setWatchesCalled s)")
     (simp_all add: readyCountInvariant_def setWatchesOnce_def)

lemma readyCount_emitReady:
  "readyCountInvariant s \<Longrightarrow> readyCountInvariant (emitReady s)"
  by (cases "emitReadyCalled s")
     (auto simp: readyCountInvariant_def emitReady_def pendingEvents_append topologiesOf_append)

lemma readyCount_perform:
  assumes "readyCountInvariant s"
  shows "readyCountInvariant (lastState (perform parse a s))"
  using assms
  by (cases a)
     (auto simp: lastState_def readyCount_handleActive readyCount_close
        readyCount_resetZkClientOnce readyCount_setWatchesOnce readyCount_emitReady
        intro: readyCount_handleClusterState[unfolded lastState_def])

lemma readyCount_performAll:
  assumes "readyCountInvariant s"
  shows "readyCountInvariant (lastState (performAll parse as s))"
  using assms
proof (induction as arbitrary: s)
  case Nil
  then show ?case by (simp add: lastState_def)
next
  case (Cons a as)
  have inv1: "readyCountInvariant (lastState (perform parse a s))"
    using Cons.prems by (rule readyCount_perform)
  show ?case
  proof (cases "perform parse a s")
    case (Inl x)
    then show ?thesis using inv1 by simp
  next
    case (Inr s1)
    then have "readyCountInvariant s1" using inv1 by (simp add: lastState_def)
    then show ?thesis using Cons.IH Inr by simp
  qed
qed

lemma runTicks_fields:
  "emitted (foldl (\<lambda>s1 t. runTick t s1) s q) = emitted s @ pendingEvents q
   \<and> inited (foldl (\<lambda>s1 t. runTick t s1) s q) = inited s
   \<and> emitReadyCalled (foldl (\<lambda>s1 t. runTick t s1) s q) = emitReadyCalled s
   \<and> nextTickQueue (foldl (\<lambda>s1 t. runTick t s1) s q) = nextTickQueue s"
proof (induction q arbitrary: s)
  case Nil
  then show ?case by simp
next
  case (Cons t q)
  show ?case
    using Cons.IH[of "runTick t s"]
    by (cases t) (simp_all add: setupZkClient_def emit_def)
qed

lemma readyCount_drainTicks:
  assumes "readyCountInvariant s"
  shows "readyCountInvariant (drainTicks s) \<and> nextTickQueue (drainTicks s) = []"
  using assms runTicks_fields[of "s\<lparr> nextTickQueue := [] \<rparr>" "nextTickQueue s"]
  by (cases "inited s") (simp_all add: drainTicks_def readyCountInvariant_def topologiesOf_append)

lemma readyCount_turn:
  assumes "readyCountInvariant s"
  shows "readyCountInvariant (lastState (turn parse as s))
       \<and> (\<forall>s1. turn parse as s = Inr s1 \<longrightarrow> nextTickQueue s1 = [])"
proof (cases "performAll parse as s")
  case (Inl x)
  then show ?thesis
    using readyCount_performAll[OF assms, of parse as] by (simp add: turn_def)
next
  case (Inr s1)
  then have "readyCountInvariant s1"
    using readyCount_performAll[OF assms, of parse as] by (simp add: lastState_def)
  then show ?thesis
    using Inr readyCount_drainTicks[of s1] by (simp add: turn_def lastState_def)
qed

lemma readyCount_run:
  assumes "readyCountInvariant s" and "nextTickQueue s = [] \<or> turns \<noteq> []"
  shows "readyCountInvariant (lastState (run parse turns s))
       \<and> (\<forall>s1. run parse turns s = Inr s1 \<longrightarrow> nextTickQueue s1 = [])"
  using assms
proof (induction turns arbitrary: s)
  case Nil
  then show ?case by (simp add: lastState_def)
next
  case (Cons t turns)
  show ?case
  proof (cases "turn parse t s")
    case (Inl x)
    then show ?thesis using readyCount_turn[OF Cons.prems(1), of parse t] by simp
  next
    case (Inr s1)
    then have "readyCountInvariant s1" "nextTickQueue s1 = []"
      using readyCount_turn[OF Cons.prems(1), of parse t] by (simp_all add: lastState_def)
    then show ?thesis using Cons.IH[of s1] Inr by simp
  qed
qed

lemma readyCount_state:
  assumes "readyCountInvariant s"
  shows "count_list (emitted s) Ready \<le> 1
       \<and> (\<not> inited s \<longrightarrow> count_list (emitted s) Ready = 0 \<and> topologiesOf (emitted s) = [])
       \<and> (nextTickQueue s = [] \<longrightarrow> count_list (emitted s) Ready = (if inited s then 1 else 0))"
  using assms
  by (cases "inited s") (auto simp: readyCountInvariant_def)

text \<open>
  C5 (as amended). Over every life of a client, session expiry and the reset of the
  ZooKeeper handle included, and whatever each turn of the event loop holds:
  \<open>ready\<close> is never emitted twice; as long as the client is not inited it has
  emitted neither \<open>ready\<close> nor any \<open>topology\<close>, at the end of a turn and after
  every action within one; and at the end of every turn the client is inited exactly
  when a callback of \<open>setWatches\<close> has come without error, and has then emitted
  \<open>ready\<close> once.
\<close>

theorem ready_at_most_once:
  "count_list (emitted (lastState (lifetime parse turns))) Ready \<le> 1
   \<and> (\<not> inited (lastState (lifetime parse turns)) \<longrightarrow>
        count_list (emitted (lastState (lifetime parse turns))) Ready = 0
        \<and> topologiesOf (emitted (lastState (lifetime parse turns))) = [])
   \<and> (\<forall>s. lifetime parse turns = Inr s \<longrightarrow>
        inited s = setWatchesSucceeded turns
        \<and> count_list (emitted s) Ready = (if inited s then 1 else 0)
        \<and> (\<not> inited (lastState (performAll parse as s)) \<longrightarrow>
             count_list (emitted (lastState (performAll parse as s))) Ready = 0
             \<and> topologiesOf (emitted (lastState (performAll parse as s))) = []))"
proof -
  have m: "readyCountInvariant Manatee"
    by (simp add: readyCountInvariant_def Manatee_def)
  have r: "readyCountInvariant (lastState (lifetime parse turns))
       \<and> (\<forall>s1. lifetime parse turns = Inr s1 \<longrightarrow> nextTickQueue s1 = [])"
    unfolding lifetime_def using m by (intro readyCount_run) simp_all
  have "\<forall>s. lifetime parse turns = Inr s \<longrightarrow>
        inited s = setWatchesSucceeded turns
        \<and> count_list (emitted s) Ready = (if inited s then 1 else 0)
        \<and> (\<not> inited (lastState (performAll parse as s)) \<longrightarrow>
             count_list (emitted (lastState (performAll parse as s))) Ready = 0
             \<and> topologiesOf (emitted (lastState (performAll parse as s))) = [])"
  proof (intro allI impI)
    fix s assume a: "lifetime parse turns = Inr s"
    then have "run parse ([] # turns) Manatee = Inr s" by (simp add: lifetime_def)
    from inited_run[OF this]
    have i: "inited s = setWatchesSucceeded turns"
      by (simp add: Manatee_def setWatchesSucceeded_def)
    have inv: "readyCountInvariant s" "nextTickQueue s = []"
      using r a by (simp_all add: lastState_def)
    have c: "count_list (emitted s) Ready = (if inited s then 1 else 0)"
      using readyCount_state[OF inv(1)] inv(2) by simp
    have "readyCountInvariant (lastState (performAll parse as s))"
      using inv(1) by (rule readyCount_performAll)
    from readyCount_state[OF this]
    have "\<not> inited (lastState (performAll parse as s)) \<longrightarrow>
             count_list (emitted (lastState (performAll parse as s))) Ready = 0
             \<and> topologiesOf (emitted (lastState (performAll parse as s))) = []"
      by simp
    with i c show "inited s = setWatchesSucceeded turns
        \<and> count_list (emitted s) Ready = (if inited s then 1 else 0)
        \<and> (\<not> inited (lastState (performAll parse as s)) \<longrightarrow>
             count_list (emitted (lastState (performAll parse as s))) Ready = 0
             \<and> topologiesOf (emitted (lastState (performAll parse as s))) = [])"
      by simp
  qed
  then show ?thesis
    using readyCount_state[of "lastState (lifetime parse turns)"] r by simp
qed

theorem ready_at_most_once_witness:
  "(\<exists>s. lifetime oneDocument
       [[OnConnected 0], [HandleClusterState docView],
        [HandleActive absentView, SetWatchesCallback 0 False],
        [OnExpired 0], [OnConnected 1],
        [HandleClusterState absentView],
        [HandleActive (Some \<lparr> data = None, version = Some 0,
                               children = Some [''2.2.2.2:5432:12345-0000000004''] \<rparr>),
         SetWatchesCallback 1 False]] = Inr s
     \<and> inited s
     \<and> count_list (emitted s) Ready = 1
     \<and> emitted s = [Ready, Topology [JStr ''tcp://1.1.1.1:5432''], Topology [JStr ''tcp://2.2.2.2:5432'']])
   \<and> \<not> inited (lastState (lifetime oneDocument [[OnConnected 0], [HandleClusterState docView]]))
   \<and> urls (lastState (lifetime oneDocument [[OnConnected 0], [HandleClusterState docView]]))
       = [JStr ''tcp://1.1.1.1:5432'']
   \<and> count_list (emitted (lastState (lifetime oneDocument
         [[OnConnected 0], [HandleClusterState docView]]))) Ready = 0
   \<and> topologiesOf (emitted (lastState (lifetime oneDocument
         [[OnConnected 0], [HandleClusterState docView]]))) = []"
proof -
  let ?turns = "[[OnConnected 0], [HandleClusterState docView],
        [HandleActive absentView, SetWatchesCallback 0 False],
        [OnExpired 0], [OnConnected 1],
        [HandleClusterState absentView],
        [HandleActive (Some \<lparr> data = None, version = Some 0,
                               children = Some [''2.2.2.2:5432:12345-0000000004''] \<rparr>),
         SetWatchesCallback 1 False]]"
  have r: "lifetime oneDocument ?turns = Inr (lastState (lifetime oneDocument ?turns))"
    by (simp add: client_defs example_defs url_defs)
  have e: "emitted (lastState (lifetime oneDocument ?turns))
     = [Ready, Topology [JStr ''tcp://1.1.1.1:5432''], Topology [JStr ''tcp://2.2.2.2:5432'']]"
    by (simp add: client_defs example_defs url_defs)
  have w: "setWatchesSucceeded ?turns"
    by (simp add: setWatchesSucceeded_def)
  from ready_at_most_once[of oneDocument ?turns "[]"] r
  have "inited (lastState (lifetime oneDocument ?turns)) = setWatchesSucceeded ?turns
      \<and> count_list (emitted (lastState (lifetime oneDocument ?turns))) Ready
          = (if inited (lastState (lifetime oneDocument ?turns)) then 1 else 0)"
    by blast
  with w have "inited (lastState (lifetime oneDocument ?turns))
      \<and> count_list (emitted (lastState (lifetime oneDocument ?turns))) Ready = 1"
    by simp
  with r e have first: "\<exists>s. lifetime oneDocument ?turns = Inr s
     \<and> inited s
     \<and> count_list (emitted s) Ready = 1
     \<and> emitted s = [Ready, Topology [JStr ''tcp://1.1.1.1:5432''], Topology [JStr ''tcp://2.2.2.2:5432'']]"
    by blast
  let ?early = "[[OnConnected 0], [HandleClusterState docView]]"
  have n: "\<not> inited (lastState (lifetime oneDocument ?early))"
    by (simp add: client_defs example_defs url_defs)
  have u: "urls (lastState (lifetime oneDocument ?early)) = [JStr ''tcp://1.1.1.1:5432'']"
    by (simp add: client_defs example_defs url_defs)
  from ready_at_most_once[of oneDocument ?early "[]"] n
  have "count_list (emitted (lastState (lifetime oneDocument ?early))) Ready = 0
      \<and> topologiesOf (emitted (lastState (lifetime oneDocument ?early))) = []"
    by blast
  with first n u show ?thesis by blast
qed

text \<open>
  The statement that \<open>ready\<close> is emitted exactly once in every life fails for a client
  that is closed before its watches are set: it never emits \<open>ready\<close>.
\<close>

theorem ready_exactly_once_counterexample:
  "count_list (emitted (lastState (lifetime oneDocument [[OnConnected 0], [CloseCall]]))) Ready = 0
   \<and> emitted (lastState (lifetime oneDocument [[OnConnected 0], [CloseCall]])) = [Close]"
  by (simp add: client_defs example_defs)

text \<open>
  The order of \<open>ready\<close> and the first \<open>topology\<close>. \<open>emitReady\<close> sets
  \<open>inited\<close> at once and defers \<open>ready\<close> to the next tick, so a handler that runs
  later in the same turn emits its topology before \<open>ready\<close>. When the callback that
  ends \<open>setWatches\<close> is the last action of its turn, \<open>ready\<close> comes first.
\<close>

lemma ready_after_topology_in_one_turn:
  "emitted (lastState (lifetime oneDocument
      [[OnConnected 0], [HandleActive absentView, SetWatchesCallback 0 False, HandleClusterState docView]]))
   = [Topology [JStr ''tcp://1.1.1.1:5432''], Ready, Topology []]"
  by (simp add: client_defs example_defs url_defs)

lemma ready_first_when_callback_last:
  assumes "\<forall>t\<in>set turns. setWatchesCallbackLast t"
  shows "count_list (emitted (lastState (lifetime parse turns))) Ready
           = (if inited (lastState (lifetime parse turns)) then 1 else 0)
       \<and> readyBeforeTopology (emitted (lastState (lifetime parse turns)))
       \<and> (\<not> inited (lastState (lifetime parse turns))
            \<longrightarrow> topologiesOf (emitted (lastState (lifetime parse turns))) = [])
       \<and> (\<forall>s. lifetime parse turns = Inr s \<longrightarrow> inited s = setWatchesSucceeded turns)"
proof -
  have m: "readyInvariant Manatee"
    by (simp add: readyInvariant_def Manatee_def)
  have "\<forall>t\<in>set ([] # turns). setWatchesCallbackLast t"
    using assms by (simp add: setWatchesCallbackLast_def)
  then have inv: "readyInvariant (lastState (lifetime parse turns))"
    unfolding lifetime_def using m by (intro readyInvariant_run)
  have "\<forall>s. lifetime parse turns = Inr s \<longrightarrow> inited s = setWatchesSucceeded turns"
  proof (intro allI impI)
    fix s assume "lifetime parse turns = Inr s"
    then have "run parse ([] # turns) Manatee = Inr s" by (simp add: lifetime_def)
    from inited_run[OF this]
    show "inited s = setWatchesSucceeded turns"
      by (simp add: Manatee_def setWatchesSucceeded_def)
  qed
  then show ?thesis
    using inv
    by (auto simp: readyInvariant_def count_list_Ready_zero readyBeforeTopology_none)
qed












section \<open>Facts about the primary resolver\<close>

lemma base64Char_not_pad: "n < 64 \<Longrightarrow> base64Char n \<noteq> CHR ''=''"
proof -
  assume "n < 64"
  then have "base64Alphabet ! n \<in> set base64Alphabet"
    by (intro nth_mem) (simp add: base64Alphabet_def)
  moreover have "CHR ''='' \<notin> set base64Alphabet"
    by (simp add: base64Alphabet_def)
  ultimately show ?thesis by (auto simp: base64Char_def)
qed

lemma pad_not_base64Char: "n < 64 \<Longrightarrow> CHR ''='' \<noteq> base64Char n"
  using base64Char_not_pad by metis

lemma byte_bound: "unat (a :: 8 word) < 256"
  using unsigned_less[of a, where 'a = nat] by simp

lemma sextet_1: "unat (a :: 8 word) div 4 < 64"
  using byte_bound[of a] by arith

lemma sextet_2: "(unat (a :: 8 word) mod 4) * 16 + unat (b :: 8 word) div 16 < 64"
  using byte_bound[of b] by arith

lemma sextet_3: "(unat (a :: 8 word) mod 16) * 4 + unat (b :: 8 word) div 64 < 64"
  using byte_bound[of b] by arith

lemma sextet_4: "unat (a :: 8 word) mod 64 < 64"
  by simp

lemma toBase64_three:
  "toBase64 (a # b # c # rest) =
     base64Char (unat a div 4) # base64Char ((unat a mod 4) * 16 + unat b div 16) #
     base64Char ((unat b mod 16) * 4 + unat c div 64) # base64Char (unat c mod 64) # toBase64 rest"
  by simp

lemma randomBytes_nine:
  "randomBytes 9 e = [e 0, e 1, e 2, e 3, e 4, e 5, e 6, e 7, e 8]"
  by (simp add: randomBytes_def upt_rec eval_nat_numeral)

lemma key_shape:
  "length (toBase64 (randomBytes 9 e)) = 12 \<and> CHR ''='' \<notin> set (toBase64 (randomBytes 9 e))"
  unfolding randomBytes_nine toBase64_three
  by (simp add: pad_not_base64Char sextet_1 sextet_2 sextet_3 sextet_4 del: toBase64.simps(4))

lemmas resolver_defs = diffPrimaryAndEmit_def samePrimary_def withKey_def emitR_def
  onTopology_def receive_def gotoState_def count_def list_def lastResolver_def index_def
  ManateePrimaryResolver_def Let_def

lemma diffPrimaryAndEmit_same:
  "samePrimary (mpr_primary r) np \<Longrightarrow> diffPrimaryAndEmit entropy np r = r"
  by (simp add: diffPrimaryAndEmit_def)

lemma diffPrimaryAndEmit_new:
  assumes "\<not> samePrimary (mpr_primary r) np"
  shows "diffPrimaryAndEmit entropy np r =
          r\<lparr> mpr_previous := mpr_primary r,
              mpr_primary := Some (withKey np (toBase64 (randomBytes 9 entropy))),
              mpr_emitted := mpr_emitted r
                 @ Added (toBase64 (randomBytes 9 entropy)) (withKey np (toBase64 (randomBytes 9 entropy)))
                 # (case mpr_primary r of None \<Rightarrow> [] | Some p \<Rightarrow> [Removed (key p)]) \<rparr>"
  using assms
  by (cases "mpr_primary r") (simp_all add: diffPrimaryAndEmit_def Let_def emitR_def withKey_def)

lemma count_le_one: "count r \<le> 1 \<and> card (dom (list r)) \<le> 1"
  by (cases "mpr_primary r") (simp_all add: count_def list_def)

lemma samePrimary_without_port:
  "port np = NaN \<Longrightarrow> \<not> samePrimary op np"
  by (cases op) (auto simp: samePrimary_def)

text \<open>
  What \<open>diffPrimaryAndEmit\<close> does, and the topology listener of the running state
  that calls it. For a candidate with a port, the test of the source is the equality of
  the specification. A candidate that passes it changes nothing and emits nothing. A
  candidate that fails it gets a key, the base64 of nine random bytes, which has twelve
  characters and no padding; it becomes the primary, the old one becomes the previous;
  \<open>added\<close> is emitted with the key and the record and then, when there was a
  primary, \<open>removed\<close> with the old key. The resolver holds one primary or none.
\<close>

lemma samePrimary_fields:
  assumes "port np \<noteq> NaN"
  shows "samePrimary op np = (\<exists>p. op = Some p \<and> sameFields_spec p np)"
proof (cases op)
  case None
  then show ?thesis by (simp add: samePrimary_def)
next
  case (Some p)
  obtain n where "port np = Finite n" using assms by (cases "port np") auto
  then show ?thesis
    using Some by (cases "port p") (auto simp: samePrimary_def sameFields_spec_def)
qed

lemma diffPrimaryAndEmit_transition:
  "(port np \<noteq> NaN \<and> mpr_primary r = Some p \<and> sameFields_spec p np \<longrightarrow>
      diffPrimaryAndEmit entropy np r = r)
   \<and> (\<not> samePrimary (mpr_primary r) np \<longrightarrow>
        length (randomBytes 9 entropy) = 9
        \<and> length (toBase64 (randomBytes 9 entropy)) = 12
        \<and> CHR ''='' \<notin> set (toBase64 (randomBytes 9 entropy))
        \<and> mpr_primary (diffPrimaryAndEmit entropy np r)
            = Some (withKey np (toBase64 (randomBytes 9 entropy)))
        \<and> mpr_previous (diffPrimaryAndEmit entropy np r) = mpr_primary r
        \<and> mpr_emitted (diffPrimaryAndEmit entropy np r)
            = mpr_emitted r
              @ Added (toBase64 (randomBytes 9 entropy)) (withKey np (toBase64 (randomBytes 9 entropy)))
              # (case mpr_primary r of None \<Rightarrow> [] | Some p \<Rightarrow> [Removed (key p)]))
   \<and> (mpr_state r = Running \<and> index us 0 = JStr u \<and> protocol (parseUrl u) = Some ''tcp:''
        \<and> hostname (parseUrl u) = Some h \<and> isIP h \<longrightarrow>
        receive parseUrl isIP (ManateeTopology us entropy) r
          = Inr (diffPrimaryAndEmit entropy
                  \<lparr> name = ''primary'', address = h,
                    port = (case url_port (parseUrl u) of None \<Rightarrow> NaN | Some p \<Rightarrow> parseInt p) \<rparr> r))
   \<and> count (diffPrimaryAndEmit entropy np r) \<le> 1
   \<and> card (dom (list (diffPrimaryAndEmit entropy np r))) \<le> 1"
proof -
  have "length (randomBytes 9 entropy) = 9" by (simp add: randomBytes_def)
  moreover have "mpr_state r = Running \<and> index us 0 = JStr u \<and> protocol (parseUrl u) = Some ''tcp:''
        \<and> hostname (parseUrl u) = Some h \<and> isIP h \<longrightarrow>
        receive parseUrl isIP (ManateeTopology us entropy) r
          = Inr (diffPrimaryAndEmit entropy
                  \<lparr> name = ''primary'', address = h,
                    port = (case url_port (parseUrl u) of None \<Rightarrow> NaN | Some p \<Rightarrow> parseInt p) \<rparr> r)"
    by (simp add: receive_def onTopology_def Let_def)
  moreover have "port np \<noteq> NaN \<and> mpr_primary r = Some p \<and> sameFields_spec p np \<longrightarrow>
      diffPrimaryAndEmit entropy np r = r"
    using samePrimary_fields[of np "mpr_primary r"] by (auto simp: diffPrimaryAndEmit_same)
  ultimately show ?thesis
    using key_shape[of entropy] count_le_one[of "diffPrimaryAndEmit entropy np r"]
    by (simp add: diffPrimaryAndEmit_new withKey_def)
qed

text \<open>
  C8. A candidate without a port never passes the test, \<open>parseInt\<close> giving
  \<open>NaN\<close> and \<open>NaN === NaN\<close> being false. So a resolver whose primary came from
  \<open>tcp://10.77.77.9\<close>, as decoded from an election node written without ports,
  adds it again under a new key and removes the old key when the next topology has the
  same first URL: the candidate has the name, the address and the port of the primary,
  where the specification has such a candidate ignored. With a port the second topology
  emits nothing.
\<close>

theorem primary_readded_without_port:
  "childrenToUrls (Some [''10.77.77.10-0000000058'', ''10.77.77.9-0000000057''])
   = [JStr ''tcp://10.77.77.9'', JStr ''tcp://10.77.77.10'']
   \<and> mpr_primary (lastResolver (receiveAll portlessUrl (\<lambda>h. h = ''10.77.77.9'')
      [StartAsserted, ManateeReady, ManateeTopology [JStr ''tcp://10.77.77.9''] (\<lambda>i. 0)]
      ManateePrimaryResolver))
   = Some \<lparr> name = ''primary'', address = ''10.77.77.9'', port = NaN, key = ''AAAAAAAAAAAA'' \<rparr>
   \<and> sameFields_spec
        \<lparr> name = ''primary'', address = ''10.77.77.9'', port = NaN, key = ''AAAAAAAAAAAA'' \<rparr>
        \<lparr> name = ''primary'', address = ''10.77.77.9'', port = NaN \<rparr>
   \<and> mpr_emitted (lastResolver (receiveAll portlessUrl (\<lambda>h. h = ''10.77.77.9'')
      [StartAsserted, ManateeReady, ManateeTopology [JStr ''tcp://10.77.77.9''] (\<lambda>i. 0),
       ManateeTopology [JStr ''tcp://10.77.77.9'', JStr ''tcp://10.77.77.10''] (\<lambda>i. 255)]
      ManateePrimaryResolver))
   = [Added ''AAAAAAAAAAAA''
        \<lparr> name = ''primary'', address = ''10.77.77.9'', port = NaN, key = ''AAAAAAAAAAAA'' \<rparr>,
      Added ''////////////''
        \<lparr> name = ''primary'', address = ''10.77.77.9'', port = NaN, key = ''////////////'' \<rparr>,
      Removed ''AAAAAAAAAAAA'']
   \<and> mpr_emitted (lastResolver (receiveAll oneUrl (\<lambda>h. h = ''1.1.1.1'')
      [StartAsserted, ManateeReady, ManateeTopology [JStr ''tcp://1.1.1.1:5432''] (\<lambda>i. 0),
       ManateeTopology [JStr ''tcp://1.1.1.1:5432'', JStr ''tcp://2.2.2.2:5432''] (\<lambda>i. 255)]
      ManateePrimaryResolver))
   = [Added ''AAAAAAAAAAAA''
        \<lparr> name = ''primary'', address = ''1.1.1.1'', port = Finite 5432, key = ''AAAAAAAAAAAA'' \<rparr>]"
proof -
  have k0: "toBase64 (randomBytes 9 (\<lambda>i. 0)) = ''AAAAAAAAAAAA''"
    by (simp add: randomBytes_nine base64Char_def base64Alphabet_def)
  have k1: "toBase64 (randomBytes 9 (\<lambda>i. 255)) = ''////////////''"
    by (simp add: randomBytes_nine base64Char_def base64Alphabet_def)
  show ?thesis
    by (simp add: resolver_defs k0 k1 portlessUrl_def oneUrl_def sameFields_spec_def url_defs)
qed

text \<open>
  The listener reads \<open>urls[0]\<close> whatever the topology holds: on the empty topology,
  which a client emits when ZooKeeper shows neither a cluster state nor an election
  node, \<open>url.parse\<close> throws.
\<close>

lemma empty_topology_throws:
  "mpr_state r = Running \<Longrightarrow>
     receive parseUrl isIP (ManateeTopology [] entropy) r = Inl (TypeError, r)"
  by (simp add: receive_def onTopology_def index_def)

text \<open>What one input makes the resolver emit.\<close>

lemma removedAfter_mono: "removedAfter False es \<Longrightarrow> removedAfter b es"
proof (cases es)
  case Nil
  then show ?thesis by simp
next
  case (Cons e es')
  assume "removedAfter False es"
  with Cons show ?thesis by (cases e) auto
qed

lemma removedAfter_append:
  "removedAfter b es \<Longrightarrow> removedAfter False fs \<Longrightarrow> removedAfter b (es @ fs)"
proof (induction es arbitrary: b)
  case Nil
  then show ?case by (simp add: removedAfter_mono)
next
  case (Cons e es)
  then show ?case by (cases e) auto
qed

lemma removedAfterAdded_append:
  "removedAfterAdded es \<Longrightarrow> removedAfterAdded fs \<Longrightarrow> removedAfterAdded (es @ fs)"
  unfolding removedAfterAdded_def by (rule removedAfter_append)

lemma emitted_enter: "mpr_emitted (enter st r) = mpr_emitted r"
  by (cases st) auto

lemma emitted_gotoState: "mpr_emitted (gotoState st r) = mpr_emitted r"
  by (simp add: gotoState_def emitted_enter)

lemma primary_gotoState:
  "mpr_primary (gotoState st r) = (if st = Failed then None else mpr_primary r)"
  by (cases st) (auto simp: gotoState_def)

lemma state_gotoState: "mpr_state (gotoState st r) = st"
  by (cases st) (auto simp: gotoState_def)

lemma state_diffPrimaryAndEmit: "mpr_state (diffPrimaryAndEmit entropy np r) = mpr_state r"
  by (cases "mpr_primary r") (auto simp: diffPrimaryAndEmit_def Let_def emitR_def)

lemma emitted_diffPrimaryAndEmit:
  "mpr_emitted (diffPrimaryAndEmit entropy np r) = mpr_emitted r
   \<or> (\<exists>k p. mpr_primary r = None \<and> mpr_emitted (diffPrimaryAndEmit entropy np r) = mpr_emitted r @ [Added k p])
   \<or> (\<exists>k p old. mpr_primary r = Some old
        \<and> mpr_emitted (diffPrimaryAndEmit entropy np r) = mpr_emitted r @ [Added k p, Removed (key old)])"
  by (cases "samePrimary (mpr_primary r) np"; cases "mpr_primary r")
     (simp_all add: diffPrimaryAndEmit_same diffPrimaryAndEmit_new)

lemma onTopology_cases:
  "onTopology parseUrl isIP us entropy r = Inl (TypeError, r)
   \<or> onTopology parseUrl isIP us entropy r = Inl (AssertionError, r)
   \<or> (\<exists>np. onTopology parseUrl isIP us entropy r = Inr (diffPrimaryAndEmit entropy np r))"
  by (auto simp: onTopology_def Let_def split: jsval.splits option.splits)

lemma receive_cases:
  "(\<exists>e. receive parseUrl isIP i r = Inl (e, r))
   \<or> receive parseUrl isIP i r = Inr r
   \<or> (\<exists>st e. receive parseUrl isIP i r = Inr (gotoState st r)
         \<or> receive parseUrl isIP i r = Inr (gotoState st (r\<lparr> mpr_lastError := Some e \<rparr>)))
   \<or> (mpr_state r = Running \<and> (\<exists>entropy np. receive parseUrl isIP i r = Inr (diffPrimaryAndEmit entropy np r)))"
proof (cases "mpr_state r"; cases i)
  fix us entropy
  assume "mpr_state r = Running" "i = ManateeTopology us entropy"
  then show ?thesis
    using onTopology_cases[of parseUrl isIP us entropy r] by (auto simp: receive_def)
qed (auto simp: receive_def)

lemma emitted_receive:
  "mpr_emitted (lastResolver (receive parseUrl isIP i r)) = mpr_emitted r
   \<or> (\<exists>k p. mpr_primary r = None
        \<and> mpr_emitted (lastResolver (receive parseUrl isIP i r)) = mpr_emitted r @ [Added k p])
   \<or> (\<exists>k p old. mpr_primary r = Some old
        \<and> mpr_emitted (lastResolver (receive parseUrl isIP i r))
            = mpr_emitted r @ [Added k p, Removed (key old)])"
  using receive_cases[of parseUrl isIP i r] emitted_diffPrimaryAndEmit[of _ _ r]
  by (fastforce simp: lastResolver_def emitted_gotoState)

lemma failed_entry:
  assumes "mpr_state r \<noteq> Failed" and "receive parseUrl isIP i r = Inr r1" and "mpr_state r1 = Failed"
  shows "mpr_primary r1 = None \<and> mpr_previous r1 = mpr_primary r \<and> mpr_emitted r1 = mpr_emitted r
         \<and> count r1 = 0 \<and> list r1 = Map.empty"
proof -
  have "\<exists>e. r1 = gotoState Failed (r\<lparr> mpr_lastError := Some e \<rparr>)"
  proof (cases "mpr_state r"; cases i)
    fix us entropy
    assume a: "mpr_state r = Running" "i = ManateeTopology us entropy"
    then have "mpr_state r1 = Running"
      using assms(2) onTopology_cases[of parseUrl isIP us entropy r]
      by (auto simp: receive_def state_diffPrimaryAndEmit)
    then show ?thesis using assms(3) by simp
  qed (insert assms, auto simp: receive_def gotoState_def split: if_splits)
  then show ?thesis
    by (auto simp: gotoState_def count_def list_def)
qed

lemma removedAfterAdded_receive:
  assumes "removedAfterAdded (mpr_emitted r)"
  shows "removedAfterAdded (mpr_emitted (lastResolver (receive parseUrl isIP i r)))"
proof -
  have "\<And>k p. removedAfterAdded [Added k p]" "\<And>k p k'. removedAfterAdded [Added k p, Removed k']"
    by (simp_all add: removedAfterAdded_def)
  then show ?thesis
    using emitted_receive[of parseUrl isIP i r] assms
    by (auto intro!: removedAfterAdded_append)
qed

lemma removedAfterAdded_receiveAll:
  assumes "removedAfterAdded (mpr_emitted r)"
  shows "removedAfterAdded (mpr_emitted (lastResolver (receiveAll parseUrl isIP inputs r)))"
  using assms
proof (induction inputs arbitrary: r)
  case Nil
  then show ?case by (simp add: lastResolver_def)
next
  case (Cons i inputs)
  have step: "removedAfterAdded (mpr_emitted (lastResolver (receive parseUrl isIP i r)))"
    using Cons.prems by (rule removedAfterAdded_receive)
  show ?case
  proof (cases "receive parseUrl isIP i r")
    case (Inl x)
    then show ?thesis using step by simp
  next
    case (Inr r1)
    then have "removedAfterAdded (mpr_emitted r1)" using step by (simp add: lastResolver_def)
    then show ?thesis using Cons.IH Inr by simp
  qed
qed

text \<open>
  C10. A resolver that enters the failed state has no primary any more (the one it had
  is now the previous one) and has emitted nothing on the way: \<open>count\<close> is 0 and
  \<open>list\<close> is empty. Whatever reaches the resolver, it emits nothing, or one \<open>added\<close>
  when it had no primary, or one \<open>added\<close> and right after it the \<open>removed\<close> of the
  key of the primary it had. So in all it has ever emitted, every \<open>removed\<close> stands
  right after an \<open>added\<close>.
\<close>

theorem failed_clears_primary_silently:
  "(mpr_state r \<noteq> Failed \<and> receive parseUrl isIP i r = Inr r1 \<and> mpr_state r1 = Failed \<longrightarrow>
      mpr_primary r1 = None \<and> mpr_previous r1 = mpr_primary r \<and> mpr_emitted r1 = mpr_emitted r
      \<and> count r1 = 0 \<and> list r1 = Map.empty)
   \<and> (mpr_emitted (lastResolver (receive parseUrl isIP i r)) = mpr_emitted r
       \<or> (\<exists>k p. mpr_primary r = None
            \<and> mpr_emitted (lastResolver (receive parseUrl isIP i r)) = mpr_emitted r @ [Added k p])
       \<or> (\<exists>k p old. mpr_primary r = Some old
            \<and> mpr_emitted (lastResolver (receive parseUrl isIP i r))
                = mpr_emitted r @ [Added k p, Removed (key old)]))
   \<and> removedAfterAdded
        (mpr_emitted (lastResolver (receiveAll parseUrl isIP inputs ManateePrimaryResolver)))"
proof -
  have "removedAfterAdded (mpr_emitted ManateePrimaryResolver)"
    by (simp add: ManateePrimaryResolver_def removedAfterAdded_def)
  then have "removedAfterAdded
        (mpr_emitted (lastResolver (receiveAll parseUrl isIP inputs ManateePrimaryResolver)))"
    by (rule removedAfterAdded_receiveAll)
  then show ?thesis
    using failed_entry[of r parseUrl isIP i r1] emitted_receive[of parseUrl isIP i r]
    by blast
qed

theorem failed_clears_primary_silently_witness:
  "mpr_emitted (lastResolver (receiveAll oneUrl (\<lambda>h. True)
      [StartAsserted, ManateeReady, ManateeTopology [JStr ''tcp://1.1.1.1:5432''] (\<lambda>i. 0),
       ManateeError ''error JSON parsing zookeeper cluster state'']
      ManateePrimaryResolver))
   = [Added ''AAAAAAAAAAAA'' \<lparr> name = ''primary'', address = ''1.1.1.1'', port = Finite 5432,
                                 key = ''AAAAAAAAAAAA'' \<rparr>]
   \<and> count (lastResolver (receiveAll oneUrl (\<lambda>h. True)
      [StartAsserted, ManateeReady, ManateeTopology [JStr ''tcp://1.1.1.1:5432''] (\<lambda>i. 0),
       ManateeError ''error JSON parsing zookeeper cluster state'']
      ManateePrimaryResolver)) = 0"
proof -
  let ?p = "\<lparr> name = ''primary'', address = ''1.1.1.1'', port = Finite 5432, key = ''AAAAAAAAAAAA'' \<rparr>"
  let ?r = "\<lparr> mpr_state = Running, mpr_manatee = True, mpr_previous = None,
             mpr_primary = Some ?p, mpr_lastError = None,
             mpr_emitted = [Added ''AAAAAAAAAAAA'' ?p] \<rparr>"
  let ?r1 = "\<lparr> mpr_state = Failed, mpr_manatee = True, mpr_previous = Some ?p,
             mpr_primary = None, mpr_lastError = Some ''error JSON parsing zookeeper cluster state'',
             mpr_emitted = [Added ''AAAAAAAAAAAA'' ?p] \<rparr>"
  have k: "toBase64 (randomBytes 9 (\<lambda>i. 0)) = ''AAAAAAAAAAAA''"
    by (simp add: randomBytes_nine base64Char_def base64Alphabet_def)
  have run3: "receiveAll oneUrl (\<lambda>h. True)
      [StartAsserted, ManateeReady, ManateeTopology [JStr ''tcp://1.1.1.1:5432''] (\<lambda>i. 0)]
      ManateePrimaryResolver = Inr ?r"
    by (simp add: resolver_defs k oneUrl_def url_defs)
  have step: "receive oneUrl (\<lambda>h. True) (ManateeError ''error JSON parsing zookeeper cluster state'') ?r = Inr ?r1"
    by (simp add: resolver_defs)
  have run4: "receiveAll oneUrl (\<lambda>h. True)
      [StartAsserted, ManateeReady, ManateeTopology [JStr ''tcp://1.1.1.1:5432''] (\<lambda>i. 0),
       ManateeError ''error JSON parsing zookeeper cluster state'']
      ManateePrimaryResolver = Inr ?r1"
    by (simp add: resolver_defs k oneUrl_def url_defs)
  have "mpr_state ?r \<noteq> Failed \<and> mpr_state ?r1 = Failed" by simp
  with failed_clears_primary_silently[of ?r oneUrl "\<lambda>h. True" "ManateeError ''error JSON parsing zookeeper cluster state''" ?r1] step
  have "mpr_emitted ?r1 = mpr_emitted ?r \<and> count ?r1 = 0" by blast
  then show ?thesis unfolding run4 by (simp add: lastResolver_def)
qed

section \<open>Facts about the node watcher\<close>

lemmas watcher_defs = watchNode_def arriveAll_def arrive_def getData_def registerChildrenWatch_def
  registerDataWatch_def doneFn_def callCb_def callWat_def onGetData_def onGetChildren_def
  onExists_def dataWatchFired_def childrenWatchFired_def schedule_def getRes_def Let_def

lemma outstanding_schedule [simp]: "outstanding (schedule p w) = outstanding w @ [p]"
  by (simp add: schedule_def)

lemma dataWatchAhead_iff:
  "dataWatchAhead w \<longleftrightarrow>
     DataWatch \<in> set (outstanding w) \<or> ExistsReq \<in> set (outstanding w)
     \<or> GetDataReq True \<in> set (outstanding w) \<or> GetChildrenReq (Some True) \<in> set (outstanding w)"
  by (auto simp: dataWatchAhead_def)

lemma outstanding_react:
  assumes "awaited a \<noteq> DataWatch" "awaited a \<noteq> ExistsReq" "awaited a \<noteq> GetDataReq True"
      "awaited a \<noteq> GetChildrenReq (Some True)"
  shows "set (outstanding (react closed' a w)) \<subseteq>
      set (outstanding w) \<union> {GetDataTimer, ChildrenTimer, ChildrenWatch, GetDataReq False,
                               GetChildrenReq None, GetChildrenReq (Some False)}"
proof (cases a)
  case (GetDataAnswer regWatch err dat st)
  with assms have "regWatch = False" by auto
  with GetDataAnswer show ?thesis
    by (auto simp: onGetData_def Let_def registerChildrenWatch_def doneFn_def callCb_def callWat_def
             split: if_splits)
next
  case (GetChildrenAnswer subcb err cs)
  with assms have "subcb = None \<or> subcb = Some False" by (cases subcb) auto
  with GetChildrenAnswer show ?thesis
    by (auto simp: onGetChildren_def Let_def doneFn_def callCb_def callWat_def split: if_splits)
next
  case (ExistsAnswer err st)
  with assms show ?thesis by simp
next
  case GetDataTimerFires
  then show ?thesis by (auto simp: getData_def split: if_splits)
next
  case ChildrenTimerFires
  then show ?thesis by (auto simp: registerChildrenWatch_def split: if_splits)
next
  case DataWatchFires
  with assms show ?thesis by simp
next
  case ChildrenWatchFires
  then show ?thesis
    by (auto simp: childrenWatchFired_def registerChildrenWatch_def split: if_splits)
qed

lemma dataWatchAhead_arrive:
  assumes "\<not> dataWatchAhead w"
  shows "\<not> dataWatchAhead (arrive closed' a w)"
proof (cases "awaited a \<in> set (outstanding w)")
  case False
  then show ?thesis using assms by (simp add: arrive_def)
next
  case True
  let ?w1 = "w\<lparr> outstanding := remove1 (awaited a) (outstanding w) \<rparr>"
  from True assms have a: "awaited a \<noteq> DataWatch" "awaited a \<noteq> ExistsReq"
      "awaited a \<noteq> GetDataReq True" "awaited a \<noteq> GetChildrenReq (Some True)"
    by (auto simp: dataWatchAhead_iff)
  have "set (outstanding ?w1) \<subseteq> set (outstanding w)"
    by (simp add: set_remove1_subset)
  with outstanding_react[OF a, of closed' ?w1]
  have "set (outstanding (react closed' a ?w1)) \<subseteq>
      set (outstanding w) \<union> {GetDataTimer, ChildrenTimer, ChildrenWatch, GetDataReq False,
                               GetChildrenReq None, GetChildrenReq (Some False)}"
    by blast
  then have "\<not> dataWatchAhead (react closed' a ?w1)"
    using assms unfolding dataWatchAhead_iff by auto
  then show ?thesis using True by (simp add: arrive_def)
qed

lemma dataWatchAhead_arriveAll:
  "\<not> dataWatchAhead w \<Longrightarrow> \<not> dataWatchAhead (arriveAll closed' as w)"
  unfolding arriveAll_def
  by (induction as arbitrary: w) (auto simp: dataWatchAhead_arrive)

lemma arriveAll_append:
  "arriveAll closed' (as @ bs) w = arriveAll closed' bs (arriveAll closed' as w)"
  by (simp add: arriveAll_def)

text \<open>
  C9. The first \<open>getData\<close> is called with \<open>regWatch\<close> true, and a read that
  succeeds at once ends by arming the data watch. A first read that fails with an error
  other than \<open>NO_NODE\<close> is retried by \<open>setTimeout(getData, 5000)\<close>, which calls
  \<open>getData\<close> without \<open>regWatch\<close>: when the retried read is answered, and whatever
  arrives after it, no data watch is armed and nothing outstanding leads to one.
\<close>

theorem data_watch_lost_after_retry:
  "\<forall>later. \<not> dataWatchAhead
      (arriveAll False
         ([GetDataAnswer True (Some OTHER_ERROR) None None, GetDataTimerFires,
           GetDataAnswer False None (Some ''{}'') (Some (Stat 0))] @ later)
         (watchNode False))"
proof
  fix later
  have "\<not> dataWatchAhead
      (arriveAll False
         [GetDataAnswer True (Some OTHER_ERROR) None None, GetDataTimerFires,
           GetDataAnswer False None (Some ''{}'') (Some (Stat 0))]
         (watchNode False))"
    by (simp add: watcher_defs dataWatchAhead_def)
  then show "\<not> dataWatchAhead
      (arriveAll False
         ([GetDataAnswer True (Some OTHER_ERROR) None None, GetDataTimerFires,
           GetDataAnswer False None (Some ''{}'') (Some (Stat 0))] @ later)
         (watchNode False))"
    unfolding arriveAll_append by (rule dataWatchAhead_arriveAll)
qed

text \<open>
  Without the error the watch is armed, whether the node exists or not; and the run
  with the retry ends with the children watch alone. The retry of
  \<open>registerChildrenWatch\<close> loses its \<open>subcb\<close> in the same way, and the data watch
  with it.
\<close>

lemma data_watch_armed_without_error:
  "DataWatch \<in> set (outstanding (arriveAll False
      [GetDataAnswer True None dat (Some st), GetChildrenAnswer (Some True) None cs,
       ExistsAnswer None (Some st)] (watchNode False)))
   \<and> DataWatch \<in> set (outstanding (arriveAll False
      [GetDataAnswer True (Some NO_NODE) None None, ExistsAnswer None None] (watchNode False)))"
  by (simp add: watcher_defs)

lemma retry_state:
  "outstanding (arriveAll False
         [GetDataAnswer True (Some OTHER_ERROR) None None, GetDataTimerFires,
           GetDataAnswer False None (Some ''{}'') (Some (Stat 0)),
           GetChildrenAnswer (Some False) None []]
         (watchNode False)) = [ChildrenWatch]
   \<and> delivered (arriveAll False
         [GetDataAnswer True (Some OTHER_ERROR) None None, GetDataTimerFires,
           GetDataAnswer False None (Some ''{}'') (Some (Stat 0)),
           GetChildrenAnswer (Some False) None []]
         (watchNode False)) = [Cb \<lparr> data = Some ''{}'', version = Some 0, children = Some [] \<rparr>]"
  by (simp add: watcher_defs)

lemma data_watch_lost_after_children_retry:
  "\<not> dataWatchAhead (arriveAll False
      ([GetDataAnswer True None dat (Some st), GetChildrenAnswer (Some True) (Some OTHER_ERROR) [],
        ChildrenTimerFires, GetChildrenAnswer None None cs] @ later) (watchNode False))"
proof -
  have "\<not> dataWatchAhead (arriveAll False
      [GetDataAnswer True None dat (Some st), GetChildrenAnswer (Some True) (Some OTHER_ERROR) [],
        ChildrenTimerFires, GetChildrenAnswer None None cs] (watchNode False))"
    by (simp add: watcher_defs dataWatchAhead_def)
  then show ?thesis
    unfolding arriveAll_append by (rule dataWatchAhead_arriveAll)
qed

end
